theory Spec2Isabelle
  imports Main
begin

section \<open>The registry image pruner (prune\_images.py)\<close>

text \<open>
  A shallow embedding of \<^verbatim>\<open>config/registry_image_pruner/image_pruner/prune_images.py\<close>.
  The script talks to a Quay-compatible registry over HTTP, so the network, the log and
  the repository counter are made explicit in a \<open>world\<close> value that every operation
  takes and returns. An exception is the outcome \<open>Raise\<close>; a call that never gets an
  answer is the outcome \<open>Hang\<close>.
\<close>

subsection \<open>Python values\<close>

text \<open>
  \<^verbatim>\<open>ImageRepo = Dict[str, Any]\<close>: a dictionary from strings to values. The values the
  script reads (\<^verbatim>\<open>name\<close>, \<^verbatim>\<open>manifest_digest\<close>, \<^verbatim>\<open>namespace\<close>) are JSON scalars; floats
  and nested containers are left out of the value type.
\<close>

datatype jval = JNull | JBool bool | JInt int | JStr string

type_synonym pydict = "string \<rightharpoonup> jval"

datatype error =
    RuntimeError string
  | HTTPError int string
  | URLError string
  | KeyError string
  | TypeError string
  | ValueError string
  | SystemExit int

fun digit_char :: "nat \<Rightarrow> char" where
  "digit_char n = char_of (of_char (CHR ''0'') + n)"

fun show_nat :: "nat \<Rightarrow> string" where
  "show_nat n = (if n < 10 then [digit_char n] else show_nat (n div 10) @ [digit_char (n mod 10)])"

text \<open>\<^verbatim>\<open>str(v)\<close>, which is what \<^verbatim>\<open>%s\<close> and an f-string apply to a value.\<close>

fun py_str :: "jval \<Rightarrow> string" where
  "py_str JNull = ''None''"
| "py_str (JBool b) = (if b then ''True'' else ''False'')"
| "py_str (JInt i) = (if i < 0 then ''-'' @ show_nat (nat (- i)) else show_nat (nat i))"
| "py_str (JStr s) = s"

subsection \<open>The fragment of Python's \<^verbatim>\<open>re\<close> that the tag pattern uses\<close>

text \<open>
  A backtracking matcher in the style of \<^verbatim>\<open>re.match\<close>: matching starts at position 0,
  alternatives are tried left to right, \<^verbatim>\<open>+\<close> is greedy, and \<^verbatim>\<open>$\<close> (without
  \<^verbatim>\<open>re.MULTILINE\<close>) holds at the end of the string and also just before a newline that
  is the last character. A match state is the position, the text still to be read and
  the groups captured so far; the matcher returns the states it can reach, best first.
\<close>

datatype re =
    Eps
  | Bol
  | Eol
  | Chr char
  | Cls "(char \<times> char) list"
  | Cat re re
  | Alt re re
  | Plus re
  | Group nat re

record mstate =
  pos :: nat
  rest :: string
  groups :: "nat \<rightharpoonup> string"

definition in_ranges :: "(char \<times> char) list \<Rightarrow> char \<Rightarrow> bool" where
  "in_ranges rs c =
     list_ex (\<lambda>(lo, hi). (of_char lo :: nat) \<le> of_char c \<and> (of_char c :: nat) \<le> of_char hi) rs"

definition advance :: "mstate \<Rightarrow> mstate" where
  "advance st = st\<lparr>pos := Suc (pos st), rest := tl (rest st)\<rparr>"

text \<open>
  One or more greedy repetitions of a matcher \<open>f\<close>: after each repetition that consumed
  something, further repetitions are preferred to stopping. The fuel is the length of the
  text plus one, which such repetitions cannot use up.
\<close>

primrec plus_iter :: "(mstate \<Rightarrow> mstate list) \<Rightarrow> nat \<Rightarrow> mstate \<Rightarrow> mstate list" where
  "plus_iter f 0 st = []"
| "plus_iter f (Suc n) st =
     concat (map (\<lambda>st'. (if length (rest st') < length (rest st) then plus_iter f n st' else [])
                          @ [st'])
                 (f st))"

primrec rmatch :: "re \<Rightarrow> mstate \<Rightarrow> mstate list" where
  "rmatch Eps st = [st]"
| "rmatch Bol st = (if pos st = 0 then [st] else [])"
| "rmatch Eol st = (if rest st = [] \<or> rest st = [CHR 0x0A] then [st] else [])"
| "rmatch (Chr c) st =
     (case rest st of [] \<Rightarrow> [] | x # _ \<Rightarrow> if x = c then [advance st] else [])"
| "rmatch (Cls rs) st =
     (case rest st of [] \<Rightarrow> [] | x # _ \<Rightarrow> if in_ranges rs x then [advance st] else [])"
| "rmatch (Cat r1 r2) st = concat (map (rmatch r2) (rmatch r1 st))"
| "rmatch (Alt r1 r2) st = rmatch r1 st @ rmatch r2 st"
| "rmatch (Plus r) st = plus_iter (rmatch r) (Suc (length (rest st))) st"
| "rmatch (Group i r) st =
     map (\<lambda>st'. st'\<lparr>groups := (groups st')(i \<mapsto> take (pos st' - pos st) (rest st))\<rparr>)
         (rmatch r st)"

text \<open>\<^verbatim>\<open>pattern.match(s)\<close>: the first state reached, or \<^verbatim>\<open>None\<close>.\<close>

definition re_match :: "re \<Rightarrow> string \<Rightarrow> mstate option" where
  "re_match r s =
     (case rmatch r \<lparr>pos = 0, rest = s, groups = Map.empty\<rparr> of
        [] \<Rightarrow> None
      | m # _ \<Rightarrow> Some m)"

text \<open>A literal string is the concatenation of its characters.\<close>

fun lit :: "string \<Rightarrow> re" where
  "lit [] = Eps"
| "lit [c] = Chr c"
| "lit (c # cs) = Cat (Chr c) (lit cs)"

text \<open>
  \<^verbatim>\<open>re.compile(r"^sha256-([0-9a-f]+)(\.sbom|\.att|\.src|\.sig)$")\<close>, piece by piece.
\<close>

definition tag_regex :: re where
  "tag_regex =
     Cat Bol
    (Cat (lit ''sha256-'')
    (Cat (Group 1 (Plus (Cls [(CHR ''0'', CHR ''9''), (CHR ''a'', CHR ''f'')])))
    (Cat (Group 2 (Alt (lit ''.sbom'') (Alt (lit ''.att'') (Alt (lit ''.src'') (lit ''.sig'')))))
         Eol)))"

text \<open>\<^verbatim>\<open>f"sha256:{match.group(1)}"\<close>; a group that took no part formats as \<^verbatim>\<open>None\<close>.\<close>

definition digest_of_match :: "mstate \<Rightarrow> string" where
  "digest_of_match m =
     ''sha256:'' @ (case groups m 1 of None \<Rightarrow> ''None'' | Some g \<Rightarrow> g)"

subsection \<open>The world: network, log and counter\<close>

text \<open>
  A request keeps the URL up to the \<^verbatim>\<open>?\<close> and, apart from it, the dictionary that the
  script hands to \<^verbatim>\<open>urlencode\<close>, in insertion order.
\<close>

datatype http_method = GET | DELETE

record request =
  meth :: http_method
  url :: string
  query :: "(string \<times> jval) list"
  headers :: "(string \<times> string) list"

text \<open>
  The top-level JSON object of a response body, as far as the script reads it: each
  field is optional (\<open>None\<close>: the key is absent, or for \<^verbatim>\<open>page\<close> and \<^verbatim>\<open>next_page\<close> also
  \<^verbatim>\<open>null\<close>), and a field that is present has the type the registry's API gives it.
\<close>

record json_data =
  j_tags :: "pydict list option"
  j_page :: "int option"
  j_has_additional :: "bool option"
  j_repositories :: "pydict list option"
  j_next_page :: "string option"

record http_response =
  status :: int
  reason :: string
  body :: json_data

text \<open>
  What the network does with one request: it answers (the final response, after any
  redirect), or the transport fails. The \<open>replies\<close> of the world are the answers the
  network is going to give, in order; when none is left, a request is never answered.
\<close>

datatype net_event = Response http_response | Failure string

record world =
  replies :: "net_event list"
  requests :: "request list"
  logged :: "string list"
  counter :: nat

datatype 'a outcome = Hang world | Raise error world | Return 'a world

fun final_world :: "'a outcome \<Rightarrow> world" where
  "final_world (Hang w) = w"
| "final_world (Raise e w) = w"
| "final_world (Return x w) = w"

text \<open>
  \<^verbatim>\<open>logging.basicConfig(..., level=logging.INFO)\<close>: records at \<^verbatim>\<open>INFO\<close> are emitted,
  records at \<^verbatim>\<open>DEBUG\<close> are dropped.
\<close>

definition LOGGER_info :: "string \<Rightarrow> world \<Rightarrow> world" where
  "LOGGER_info msg w = w\<lparr>logged := logged w @ [msg]\<rparr>"

definition LOGGER_debug :: "string \<Rightarrow> world \<Rightarrow> world" where
  "LOGGER_debug msg w = w"

text \<open>
  \<^verbatim>\<open>urllib.request.urlopen\<close>: the request goes out; a response with a status outside
  200..299 is raised as \<^verbatim>\<open>HTTPError\<close>, a transport failure as \<^verbatim>\<open>URLError\<close>, and any
  other response is returned.
\<close>

definition urlopen :: "request \<Rightarrow> world \<Rightarrow> http_response outcome" where
  "urlopen req w =
     (let w' = w\<lparr>requests := requests w @ [req]\<rparr> in
      case replies w of
        [] \<Rightarrow> Hang w'
      | ev # evs \<Rightarrow>
          (let w'' = w'\<lparr>replies := evs\<rparr> in
           case ev of
             Failure msg \<Rightarrow> Raise (URLError msg) w''
           | Response resp \<Rightarrow>
               if 200 \<le> status resp \<and> status resp < 300 then Return resp w''
               else Raise (HTTPError (status resp) (reason resp)) w''))"

definition QUAY_API_URL :: string where
  "QUAY_API_URL = ''https://quay.io/api/v1''"

definition auth_headers :: "string \<Rightarrow> (string \<times> string) list" where
  "auth_headers token = [(''Authorization'', ''Bearer '' @ token)]"

subsection \<open>\<^verbatim>\<open>delete_image_tag\<close>\<close>

definition delete_request :: "string \<Rightarrow> string \<Rightarrow> string \<Rightarrow> string \<Rightarrow> request" where
  "delete_request quay_token namespace name tag =
     \<lparr>meth = DELETE,
      url = QUAY_API_URL @ ''/repository/'' @ namespace @ ''/'' @ name @ ''/tag/'' @ tag,
      query = [],
      headers = auth_headers quay_token\<rparr>"

definition delete_image_tag :: "string \<Rightarrow> string \<Rightarrow> string \<Rightarrow> string \<Rightarrow> world \<Rightarrow> unit outcome" where
  "delete_image_tag quay_token namespace name tag w =
     (case urlopen (delete_request quay_token namespace name tag) w of
        Hang w' \<Rightarrow> Hang w'
      | Return resp w' \<Rightarrow>
          if status resp \<noteq> 200 \<and> status resp \<noteq> 204 then Raise (RuntimeError (reason resp)) w'
          else Return () w'
      | Raise ex w' \<Rightarrow>
          (case ex of
             HTTPError st rs \<Rightarrow> if st \<noteq> 404 then Raise ex w' else Return () w'
           | _ \<Rightarrow> Raise ex w'))"

subsection \<open>\<^verbatim>\<open>remove_tags\<close>\<close>

text \<open>\<^verbatim>\<open>[image["manifest_digest"] for image in tags]\<close>\<close>

fun image_digests_of :: "pydict list \<Rightarrow> error + jval list" where
  "image_digests_of [] = Inr []"
| "image_digests_of (img # images) =
     (case img ''manifest_digest'' of
        None \<Rightarrow> Inl (KeyError ''manifest_digest'')
      | Some d \<Rightarrow>
          (case image_digests_of images of
             Inl e \<Rightarrow> Inl e
           | Inr ds \<Rightarrow> Inr (d # ds)))"

definition should_be_removed_msg :: "string \<Rightarrow> string \<Rightarrow> string \<Rightarrow> string" where
  "should_be_removed_msg tag_name namespace name =
     ''Tag '' @ tag_name @ '' from '' @ namespace @ ''/'' @ name @ '' should be removed''"

definition removing_msg :: "string \<Rightarrow> string \<Rightarrow> string \<Rightarrow> string" where
  "removing_msg tag_name namespace name =
     ''Removing tag '' @ tag_name @ '' from '' @ namespace @ ''/'' @ name"

text \<open>The \<^verbatim>\<open>for tag in tags\<close> loop, with \<^verbatim>\<open>image_digests\<close> already built.\<close>

fun remove_tags_loop ::
  "jval list \<Rightarrow> pydict list \<Rightarrow> string \<Rightarrow> string \<Rightarrow> string \<Rightarrow> bool \<Rightarrow> world \<Rightarrow> unit outcome" where
  "remove_tags_loop image_digests [] quay_token namespace name dry_run w = Return () w"
| "remove_tags_loop image_digests (tag # tags) quay_token namespace name dry_run w =
     (case tag ''name'' of
        None \<Rightarrow> Raise (KeyError ''name'') w
      | Some (JStr tag_name) \<Rightarrow>
          (case re_match tag_regex tag_name of
             Some m \<Rightarrow>
               if JStr (digest_of_match m) \<notin> set image_digests then
                 (if dry_run then
                    remove_tags_loop image_digests tags quay_token namespace name dry_run
                      (LOGGER_info (should_be_removed_msg tag_name namespace name) w)
                  else
                    (case delete_image_tag quay_token namespace name tag_name
                            (LOGGER_info (removing_msg tag_name namespace name) w) of
                       Return u w' \<Rightarrow>
                         remove_tags_loop image_digests tags quay_token namespace name dry_run w'
                     | Raise e w' \<Rightarrow> Raise e w'
                     | Hang w' \<Rightarrow> Hang w'))
               else remove_tags_loop image_digests tags quay_token namespace name dry_run w
           | None \<Rightarrow>
               remove_tags_loop image_digests tags quay_token namespace name dry_run
                 (LOGGER_debug (tag_name @ '' is not an tag with suffix .att or .sbom'') w))
      | Some _ \<Rightarrow> Raise (TypeError ''expected string or bytes-like object'') w)"

definition remove_tags ::
  "pydict list \<Rightarrow> string \<Rightarrow> string \<Rightarrow> string \<Rightarrow> bool \<Rightarrow> world \<Rightarrow> unit outcome" where
  "remove_tags tags quay_token namespace name dry_run w =
     (case image_digests_of tags of
        Inl e \<Rightarrow> Raise e w
      | Inr image_digests \<Rightarrow>
          remove_tags_loop image_digests tags quay_token namespace name dry_run w)"

subsection \<open>\<^verbatim>\<open>get_quay_tags\<close>\<close>

definition tags_request :: "string \<Rightarrow> string \<Rightarrow> string \<Rightarrow> int option \<Rightarrow> request" where
  "tags_request quay_token namespace name next_page =
     \<lparr>meth = GET,
      url = QUAY_API_URL @ ''/repository/'' @ namespace @ ''/'' @ name @ ''/tag/'',
      query = [(''limit'', JInt 100), (''onlyActiveTags'', JBool True)]
              @ (case next_page of None \<Rightarrow> [] | Some p \<Rightarrow> [(''page'', JInt p)]),
      headers = auth_headers quay_token\<rparr>"

lemma urlopen_Return_replies:
  "urlopen req w = Return resp w' \<Longrightarrow> length (replies w') < length (replies w)"
  by (auto simp: urlopen_def Let_def split: list.splits net_event.splits if_splits)

text \<open>
  The \<^verbatim>\<open>while True\<close> loop, from the state \<^verbatim>\<open>next_page\<close>, \<^verbatim>\<open>all_tags\<close>. Every iteration
  takes one reply from the network.
\<close>

function get_quay_tags_loop ::
  "string \<Rightarrow> string \<Rightarrow> string \<Rightarrow> int option \<Rightarrow> pydict list \<Rightarrow> world \<Rightarrow> pydict list outcome" where
  "get_quay_tags_loop quay_token namespace name next_page all_tags w =
     (case urlopen (tags_request quay_token namespace name next_page) w of
        Hang w' \<Rightarrow> Hang w'
      | Raise e w' \<Rightarrow> Raise e w'
      | Return resp w' \<Rightarrow>
          if status resp \<noteq> 200 then Raise (RuntimeError (reason resp)) w'
          else
            (let json_data = body resp;
                 tags = (case j_tags json_data of None \<Rightarrow> [] | Some ts \<Rightarrow> ts);
                 all_tags' = all_tags @ tags
             in case tags of
                  [] \<Rightarrow> Return all_tags' (LOGGER_debug ''No tags found.'' w')
                | _ # _ \<Rightarrow>
                    (let page = j_page json_data;
                         additional = (case j_has_additional json_data of
                                         None \<Rightarrow> False | Some b \<Rightarrow> b)
                     in if additional then
                          (case page of
                             None \<Rightarrow>
                               Raise (TypeError ''unsupported operand type(s) for +: NoneType and int'') w'
                           | Some p \<Rightarrow>
                               get_quay_tags_loop quay_token namespace name (Some (p + 1))
                                 all_tags' w')
                        else Return all_tags' w')))"
  by pat_completeness auto
termination
  by (relation "measure (\<lambda>(quay_token, namespace, name, next_page, all_tags, w). length (replies w))")
     (auto dest: urlopen_Return_replies)

definition get_quay_tags :: "string \<Rightarrow> string \<Rightarrow> string \<Rightarrow> world \<Rightarrow> pydict list outcome" where
  "get_quay_tags quay_token namespace name w =
     get_quay_tags_loop quay_token namespace name None [] w"

subsection \<open>\<^verbatim>\<open>process_repositories\<close>\<close>

definition processing_msg :: "nat \<Rightarrow> string \<Rightarrow> string \<Rightarrow> string" where
  "processing_msg n namespace name =
     ''Processing repository '' @ show_nat n @ '': '' @ namespace @ ''/'' @ name"

text \<open>
  \<^verbatim>\<open>namespace\<close> and \<^verbatim>\<open>name\<close> are only ever formatted (\<^verbatim>\<open>%s\<close>, f-strings), so they are
  turned into their \<^verbatim>\<open>str\<close> where they are read. \<^verbatim>\<open>next(processed_repos_counter)\<close>
  yields the counter and increments it.
\<close>

fun process_repositories :: "pydict list \<Rightarrow> string \<Rightarrow> bool \<Rightarrow> world \<Rightarrow> unit outcome" where
  "process_repositories [] quay_token dry_run w = Return () w"
| "process_repositories (repo # repos) quay_token dry_run w =
     (case repo ''namespace'' of
        None \<Rightarrow> Raise (KeyError ''namespace'') w
      | Some namespace_v \<Rightarrow>
          (case repo ''name'' of
             None \<Rightarrow> Raise (KeyError ''name'') w
           | Some name_v \<Rightarrow>
               (let namespace = py_str namespace_v;
                    name = py_str name_v;
                    w1 = LOGGER_info (processing_msg (counter w) namespace name)
                           (w\<lparr>counter := Suc (counter w)\<rparr>)
                in case get_quay_tags quay_token namespace name w1 of
                     Hang w2 \<Rightarrow> Hang w2
                   | Raise e w2 \<Rightarrow> Raise e w2
                   | Return all_tags w2 \<Rightarrow>
                       (case all_tags of
                          [] \<Rightarrow> process_repositories repos quay_token dry_run w2
                        | _ # _ \<Rightarrow>
                            (case remove_tags all_tags quay_token namespace name dry_run w2 of
                               Hang w3 \<Rightarrow> Hang w3
                             | Raise e w3 \<Rightarrow> Raise e w3
                             | Return u w3 \<Rightarrow>
                                 process_repositories repos quay_token dry_run w3)))))"

subsection \<open>\<^verbatim>\<open>fetch_image_repos\<close>\<close>

definition repos_request :: "string \<Rightarrow> string \<Rightarrow> string option \<Rightarrow> request" where
  "repos_request access_token namespace next_page =
     \<lparr>meth = GET,
      url = QUAY_API_URL @ ''/repository'',
      query = [(''namespace'', JStr namespace)]
              @ (case next_page of None \<Rightarrow> [] | Some c \<Rightarrow> [(''next_page'', JStr c)]),
      headers = auth_headers access_token\<rparr>"

text \<open>
  The function is a generator. Its state between two \<^verbatim>\<open>next\<close> calls is: not started;
  suspended at \<^verbatim>\<open>yield repos\<close>, holding \<^verbatim>\<open>json_data\<close>; or finished. A \<^verbatim>\<open>next\<close> call
  returns the batch yielded, or \<open>None\<close> for \<^verbatim>\<open>StopIteration\<close>.
\<close>

datatype gen_state = GenStart | GenSuspended json_data | GenDone

text \<open>One pass from the top of \<^verbatim>\<open>while True\<close> to the \<^verbatim>\<open>yield\<close> or the \<^verbatim>\<open>break\<close>.\<close>

definition fetch_image_repos_pass ::
  "string \<Rightarrow> string \<Rightarrow> string option \<Rightarrow> world \<Rightarrow> (pydict list option \<times> gen_state) outcome" where
  "fetch_image_repos_pass access_token namespace next_page w =
     (case urlopen (repos_request access_token namespace next_page) w of
        Hang w' \<Rightarrow> Hang w'
      | Raise e w' \<Rightarrow> Raise e w'
      | Return resp w' \<Rightarrow>
          if status resp \<noteq> 200 then Raise (RuntimeError (reason resp)) w'
          else
            (let json_data = body resp;
                 repos = (case j_repositories json_data of None \<Rightarrow> [] | Some rs \<Rightarrow> rs)
             in case repos of
                  [] \<Rightarrow> Return (None, GenDone) (LOGGER_debug ''No image repository is found.'' w')
                | _ # _ \<Rightarrow> Return (Some repos, GenSuspended json_data) w'))"

definition fetch_image_repos_next ::
  "string \<Rightarrow> string \<Rightarrow> gen_state \<Rightarrow> world \<Rightarrow> (pydict list option \<times> gen_state) outcome" where
  "fetch_image_repos_next access_token namespace g w =
     (case g of
        GenStart \<Rightarrow> fetch_image_repos_pass access_token namespace None w
      | GenSuspended json_data \<Rightarrow>
          (case j_next_page json_data of
             None \<Rightarrow> Return (None, GenDone) w
           | Some next_page \<Rightarrow> fetch_image_repos_pass access_token namespace (Some next_page) w)
      | GenDone \<Rightarrow> Return (None, GenDone) w)"

subsection \<open>No operation adds replies\<close>

text \<open>
  The replies still to come only ever shrink. This is what makes the \<^verbatim>\<open>for\<close> loop of
  \<^verbatim>\<open>main\<close> a terminating recursion.
\<close>

declare get_quay_tags_loop.simps [simp del]

lemma urlopen_replies_le:
  "length (replies (final_world (urlopen req w))) \<le> length (replies w)"
  by (auto simp: urlopen_def Let_def split: list.splits net_event.splits)

lemma delete_image_tag_replies_le:
  "length (replies (final_world (delete_image_tag t ns n tg w))) \<le> length (replies w)"
  using urlopen_replies_le [of "delete_request t ns n tg" w]
  by (auto simp: delete_image_tag_def split: outcome.splits error.splits)

lemma LOGGER_info_replies [simp]: "replies (LOGGER_info msg w) = replies w"
  by (simp add: LOGGER_info_def)

lemma LOGGER_debug_id [simp]: "LOGGER_debug msg w = w"
  by (simp add: LOGGER_debug_def)

lemma remove_tags_loop_replies_le:
  "length (replies (final_world (remove_tags_loop ds tags t ns n dry w))) \<le> length (replies w)"
proof (induction tags arbitrary: w)
  case Nil
  show ?case by simp
next
  case (Cons tag tags)
  show ?case
  proof (cases "tag ''name''")
    case None
    then show ?thesis by simp
  next
    case (Some v)
    show ?thesis
    proof (cases v)
      case (JStr tn)
      let ?wl = "LOGGER_info (removing_msg tn ns n) w"
      have d: "length (replies (final_world (delete_image_tag t ns n tn ?wl))) \<le> length (replies w)"
        using delete_image_tag_replies_le [of t ns n tn ?wl] by simp
      have live: "length (replies (final_world
          (case delete_image_tag t ns n tn ?wl of
             Return u w' \<Rightarrow> remove_tags_loop ds tags t ns n dry w'
           | Raise e w' \<Rightarrow> Raise e w'
           | Hang w' \<Rightarrow> Hang w'))) \<le> length (replies w)"
      proof (cases "delete_image_tag t ns n tn ?wl")
        case (Return u w')
        with d have "length (replies w') \<le> length (replies w)" by simp
        with Cons.IH [of w'] Return show ?thesis by simp
      qed (use d in simp_all)
      show ?thesis
      proof (cases dry)
        case True
        from True Some JStr Cons.IH [of w]
          Cons.IH [of "LOGGER_info (should_be_removed_msg tn ns n) w"]
        show ?thesis by (simp split: option.splits)
      next
        case False
        then have "dry = False" by simp
        from Some JStr live [unfolded this] Cons.IH [of w, unfolded this]
        show ?thesis unfolding \<open>dry = False\<close> by (simp split: option.splits)
      qed
    qed (use Some in simp_all)
  qed
qed

lemma remove_tags_replies_le:
  "length (replies (final_world (remove_tags tags t ns n dry w))) \<le> length (replies w)"
  by (simp add: remove_tags_def remove_tags_loop_replies_le split: sum.splits)

lemma get_quay_tags_loop_replies_le:
  "length (replies (final_world (get_quay_tags_loop t ns n np acc w))) \<le> length (replies w)"
proof (induction t ns n np acc w rule: get_quay_tags_loop.induct)
  case (1 t ns n np acc w)
  note u = urlopen_replies_le [of "tags_request t ns n np" w]
  show ?case
  proof (cases "urlopen (tags_request t ns n np) w")
    case (Return resp w')
    with u have le: "length (replies w') \<le> length (replies w)" by simp
    show ?thesis
    proof (cases "status resp = 200 \<and> (\<exists>x xs p. j_tags (body resp) = Some (x # xs)
              \<and> j_has_additional (body resp) = Some True \<and> j_page (body resp) = Some p)")
      case True
      then obtain x xs p where st: "status resp = 200"
        and tg: "j_tags (body resp) = Some (x # xs)"
        and ha: "j_has_additional (body resp) = Some True"
        and pg: "j_page (body resp) = Some p" by blast
      have "length (replies (final_world
              (get_quay_tags_loop t ns n (Some (p + 1)) (acc @ x # xs) w'))) \<le> length (replies w')"
        using "1.IH" [OF Return _ refl refl refl _ refl refl, of x xs p] st tg ha pg
        by simp
      with le show ?thesis
        using Return st tg ha pg
        by (subst get_quay_tags_loop.simps) simp
    next
      case False
      with le Return show ?thesis
        by (subst get_quay_tags_loop.simps)
           (auto simp: Let_def split: list.splits option.splits)
    qed
  qed (use u in \<open>subst get_quay_tags_loop.simps, simp\<close>)+
qed

lemma get_quay_tags_replies_le:
  "length (replies (final_world (get_quay_tags t ns n w))) \<le> length (replies w)"
  by (simp add: get_quay_tags_def get_quay_tags_loop_replies_le)

lemma process_repositories_replies_le:
  "length (replies (final_world (process_repositories repos t dry w))) \<le> length (replies w)"
proof (induction repos arbitrary: w)
  case Nil
  show ?case by simp
next
  case (Cons repo repos)
  show ?case
  proof (cases "repo ''namespace''")
    case None
    then show ?thesis by simp
  next
    case nsv: (Some namespace_v)
    show ?thesis
    proof (cases "repo ''name''")
      case None
      with nsv show ?thesis by simp
    next
      case nv: (Some name_v)
      let ?w1 = "LOGGER_info (processing_msg (counter w) (py_str namespace_v) (py_str name_v))
                   (w\<lparr>counter := Suc (counter w)\<rparr>)"
      have g: "length (replies (final_world (get_quay_tags t (py_str namespace_v) (py_str name_v) ?w1)))
                 \<le> length (replies w)"
        using get_quay_tags_replies_le [of t "py_str namespace_v" "py_str name_v" ?w1] by simp
      show ?thesis
      proof (cases "get_quay_tags t (py_str namespace_v) (py_str name_v) ?w1")
        case (Return all_tags w2)
        with g have le2: "length (replies w2) \<le> length (replies w)" by simp
        show ?thesis
        proof (cases all_tags)
          case Nil
          with nsv nv Return le2 Cons.IH [of w2] show ?thesis by (simp add: Let_def)
        next
          case (Cons a as)
          have r: "length (replies (final_world
                     (remove_tags all_tags t (py_str namespace_v) (py_str name_v) dry w2)))
                   \<le> length (replies w)"
            using remove_tags_replies_le [of all_tags t "py_str namespace_v" "py_str name_v" dry w2] le2
            by simp
          show ?thesis
          proof (cases "remove_tags all_tags t (py_str namespace_v) (py_str name_v) dry w2")
            case (Return u w3)
            with r have "length (replies w3) \<le> length (replies w)" by simp
            with Cons.IH [of w3] have "length (replies (final_world
                 (process_repositories repos t dry w3))) \<le> length (replies w)" by simp
            with nsv nv \<open>get_quay_tags t (py_str namespace_v) (py_str name_v) ?w1 = Return all_tags w2\<close>
              Cons Return show ?thesis by (simp add: Let_def)
          qed (use nsv nv \<open>get_quay_tags t (py_str namespace_v) (py_str name_v) ?w1 = Return all_tags w2\<close>
                 Cons r in \<open>simp_all add: Let_def\<close>)
        qed
      qed (use nsv nv g in \<open>simp_all add: Let_def\<close>)
    qed
  qed
qed

lemma fetch_image_repos_next_Some_replies:
  assumes "fetch_image_repos_next t ns g w = Return (Some batch, g') w'"
  shows "length (replies w') < length (replies w)"
proof -
  have pass: "length (replies w') < length (replies w)"
    if "fetch_image_repos_pass t ns np w = Return (Some batch, g') w'" for np
    using that urlopen_Return_replies [of "repos_request t ns np" w]
    by (auto simp: fetch_image_repos_pass_def Let_def
             split: outcome.splits if_splits list.splits)
  from assms show ?thesis
    by (auto simp: fetch_image_repos_next_def dest: pass split: gen_state.splits option.splits)
qed

lemma main_for_decreases:
  assumes "fetch_image_repos_next t ns g w = Return (Some batch, g') w'"
    and "process_repositories batch t dry w' = Return u w''"
  shows "length (replies w'') < length (replies w)"
proof -
  have "length (replies w') < length (replies w)"
    using assms(1) by (rule fetch_image_repos_next_Some_replies)
  moreover have "length (replies w'') \<le> length (replies w')"
    using process_repositories_replies_le [of batch t dry w'] assms(2) by simp
  ultimately show ?thesis by simp
qed

subsection \<open>\<^verbatim>\<open>main\<close>\<close>

text \<open>
  What \<^verbatim>\<open>parse_args\<close> returns. Whether \<^verbatim>\<open>argparse\<close> accepts the command line is
  decided outside the script, so \<^verbatim>\<open>main\<close> takes the outcome of \<^verbatim>\<open>parse_args()\<close> as a
  parameter: the arguments, or the \<^verbatim>\<open>SystemExit\<close> that \<^verbatim>\<open>argparse\<close> raises.
\<close>

record args =
  args_namespace :: string
  args_dry_run :: bool

text \<open>\<^verbatim>\<open>for image_repos in fetch_image_repos(...): process_repositories(...)\<close>\<close>

function main_for :: "string \<Rightarrow> args \<Rightarrow> gen_state \<Rightarrow> world \<Rightarrow> unit outcome" where
  "main_for token args g w =
     (case fetch_image_repos_next token (args_namespace args) g w of
        Hang w' \<Rightarrow> Hang w'
      | Raise e w' \<Rightarrow> Raise e w'
      | Return (None, g') w' \<Rightarrow> Return () w'
      | Return (Some image_repos, g') w' \<Rightarrow>
          (case process_repositories image_repos token (args_dry_run args) w' of
             Hang w'' \<Rightarrow> Hang w''
           | Raise e w'' \<Rightarrow> Raise e w''
           | Return u w'' \<Rightarrow> main_for token args g' w''))"
  by pat_completeness auto
termination
  by (relation "measure (\<lambda>(token, args, g, w). length (replies w))")
     (auto dest: main_for_decreases)

declare main_for.simps [simp del]

definition missing_token_msg :: string where
  "missing_token_msg = ''The token required for access to Quay API is missing!''"

text \<open>
  \<^verbatim>\<open>os.getenv("QUAY_TOKEN")\<close> reads the environment, a dictionary of strings;
  \<^verbatim>\<open>not token\<close> holds for a missing variable and for an empty one.
\<close>

definition main :: "(string \<rightharpoonup> string) \<Rightarrow> error + args \<Rightarrow> world \<Rightarrow> unit outcome" where
  "main environ parse_args w =
     (case environ ''QUAY_TOKEN'' of
        None \<Rightarrow> Raise (ValueError missing_token_msg) w
      | Some token \<Rightarrow>
          if token = [] then Raise (ValueError missing_token_msg) w
          else
            (case parse_args of
               Inl e \<Rightarrow> Raise e w
             | Inr args \<Rightarrow> main_for token args GenStart w))"

text \<open>
  The exit status of \<^verbatim>\<open>python prune_images.py\<close>: 0 after a normal return, the code of a
  \<^verbatim>\<open>SystemExit\<close>, 1 for any other uncaught exception, and none while the process hangs.
\<close>

fun exit_status :: "unit outcome \<Rightarrow> int option" where
  "exit_status (Hang w) = None"
| "exit_status (Return u w) = Some 0"
| "exit_status (Raise (SystemExit n) w) = Some n"
| "exit_status (Raise e w) = Some 1"

section \<open>Properties\<close>

subsection \<open>One request, one reply\<close>

lemma urlopen_Response:
  "urlopen req (w\<lparr>replies := Response resp # evs\<rparr>) =
     (if 200 \<le> status resp \<and> status resp < 300
      then Return resp (w\<lparr>replies := evs, requests := requests w @ [req]\<rparr>)
      else Raise (HTTPError (status resp) (reason resp))
             (w\<lparr>replies := evs, requests := requests w @ [req]\<rparr>))"
  by (simp add: urlopen_def Let_def)

lemma urlopen_Failure:
  "urlopen req (w\<lparr>replies := Failure msg # evs\<rparr>) =
     Raise (URLError msg) (w\<lparr>replies := evs, requests := requests w @ [req]\<rparr>)"
  by (simp add: urlopen_def Let_def)

lemma urlopen_no_reply:
  "urlopen req (w\<lparr>replies := []\<rparr>) = Hang (w\<lparr>replies := [], requests := requests w @ [req]\<rparr>)"
  by (simp add: urlopen_def Let_def)

lemma urlopen_reply:
  assumes "replies w = Response resp # evs"
  shows "urlopen req w =
     (if 200 \<le> status resp \<and> status resp < 300
      then Return resp (w\<lparr>replies := evs, requests := requests w @ [req]\<rparr>)
      else Raise (HTTPError (status resp) (reason resp))
             (w\<lparr>replies := evs, requests := requests w @ [req]\<rparr>))"
  using assms by (simp add: urlopen_def Let_def)

subsection \<open>Deleting a tag\<close>

text \<open>
  C4. When the registry answers a \<^verbatim>\<open>DELETE\<close> with some status, \<^verbatim>\<open>delete_image_tag\<close>
  returns normally exactly for the statuses 200, 204 and 404. For any other status it
  raises: a \<^verbatim>\<open>RuntimeError\<close> with the reason for another 2xx status, and the
  \<^verbatim>\<open>HTTPError\<close> with status and reason otherwise (500, say). In every case, 404 included,
  the one \<^verbatim>\<open>DELETE\<close> request is all that happened: nothing is logged and no other
  request is sent.
\<close>

theorem delete_image_tag_status:
  "delete_image_tag quay_token namespace name tag (w\<lparr>replies := Response resp # evs\<rparr>) =
     (let w' = w\<lparr>replies := evs,
                 requests := requests w @ [delete_request quay_token namespace name tag]\<rparr>
      in if status resp \<in> {200, 204, 404} then Return () w'
         else if 200 \<le> status resp \<and> status resp < 300 then Raise (RuntimeError (reason resp)) w'
         else Raise (HTTPError (status resp) (reason resp)) w')"
  by (simp add: delete_image_tag_def urlopen_Response Let_def)

subsection \<open>The missing token\<close>

text \<open>
  C8. Without \<^verbatim>\<open>QUAY_TOKEN\<close> in the environment, \<^verbatim>\<open>main\<close> raises the \<^verbatim>\<open>ValueError\<close>
  at once, whatever the command line is: the world is untouched, so no request was
  sent, and the process exits with status 1.
\<close>

theorem main_without_token:
  "main (environ(''QUAY_TOKEN'' := None)) parse_args w = Raise (ValueError missing_token_msg) w
   \<and> exit_status (main (environ(''QUAY_TOKEN'' := None)) parse_args w) = Some 1
   \<and> requests (final_world (main (environ(''QUAY_TOKEN'' := None)) parse_args w)) = requests w"
  by (simp add: main_def)

subsection \<open>Tags without a digest\<close>

lemma image_digests_of_KeyError:
  "t \<in> set tags \<Longrightarrow> t ''manifest_digest'' = None \<Longrightarrow>
   image_digests_of tags = Inl (KeyError ''manifest_digest'')"
  by (induction tags) (auto split: option.splits sum.splits)

text \<open>
  C9. If any tag of the list has no \<^verbatim>\<open>manifest_digest\<close>, \<^verbatim>\<open>remove_tags\<close> raises
  \<^verbatim>\<open>KeyError\<close> while it builds \<^verbatim>\<open>image_digests\<close>: the world is untouched, so nothing
  was reported and nothing deleted, also when the tag is not a derived-artifact tag.
\<close>

theorem remove_tags_requires_manifest_digest:
  assumes "t \<in> set tags" and "t ''manifest_digest'' = None"
  shows "remove_tags tags quay_token namespace name dry_run w = Raise (KeyError ''manifest_digest'') w"
  using image_digests_of_KeyError [OF assms] by (simp add: remove_tags_def)

theorem remove_tags_requires_manifest_digest_witness:
  "remove_tags [[''name'' \<mapsto> JStr ''latest''],
                [''name'' \<mapsto> JStr ''sha256-ccc.att'', ''manifest_digest'' \<mapsto> JStr ''sha256:ddd'']]
     ''tok'' ''acme'' ''app'' False
     \<lparr>replies = [], requests = [], logged = [], counter = 0\<rparr>
   = Raise (KeyError ''manifest_digest'') \<lparr>replies = [], requests = [], logged = [], counter = 0\<rparr>"
  by (rule remove_tags_requires_manifest_digest [of "[''name'' \<mapsto> JStr ''latest'']"]) simp_all

subsection \<open>Listing the tags of a repository\<close>

text \<open>One iteration of the loop of \<^verbatim>\<open>get_quay_tags\<close> on a response with status 200.\<close>

lemma get_quay_tags_loop_200:
  assumes "replies w = Response resp # evs" and "status resp = 200"
  shows "get_quay_tags_loop quay_token namespace name next_page all_tags w =
     (let w' = w\<lparr>replies := evs,
                 requests := requests w @ [tags_request quay_token namespace name next_page]\<rparr>;
          tags = (case j_tags (body resp) of None \<Rightarrow> [] | Some ts \<Rightarrow> ts)
      in if tags = [] \<or> j_has_additional (body resp) \<noteq> Some True then Return (all_tags @ tags) w'
         else case j_page (body resp) of
                None \<Rightarrow> Raise (TypeError ''unsupported operand type(s) for +: NoneType and int'') w'
              | Some p \<Rightarrow> get_quay_tags_loop quay_token namespace name (Some (p + 1)) (all_tags @ tags) w')"
  by (subst get_quay_tags_loop.simps)
     (auto simp: urlopen_reply [OF assms(1)] assms(2) Let_def split: list.splits option.splits)

text \<open>
  C10. Take any iteration of the loop of \<^verbatim>\<open>get_quay_tags\<close> (the function is the loop
  started with \<^verbatim>\<open>next_page = None\<close> and \<^verbatim>\<open>all_tags = []\<close>) that receives a response
  with status 200. If the batch is not empty, \<^verbatim>\<open>has_additional\<close> is true and \<^verbatim>\<open>page\<close> is
  absent, the function raises the \<^verbatim>\<open>TypeError\<close> of \<^verbatim>\<open>None + 1\<close>. If the batch is empty
  or \<^verbatim>\<open>has_additional\<close> is false or absent, it returns what it has collected, whatever
  the \<^verbatim>\<open>page\<close> field is.
\<close>

theorem get_quay_tags_page_field:
  assumes "replies w = Response resp # evs" and "status resp = 200"
  shows "(j_tags (body resp) = Some (t # ts) \<and> j_has_additional (body resp) = Some True
            \<and> j_page (body resp) = None \<longrightarrow>
          get_quay_tags_loop quay_token namespace name next_page all_tags w =
            Raise (TypeError ''unsupported operand type(s) for +: NoneType and int'')
              (w\<lparr>replies := evs,
                 requests := requests w @ [tags_request quay_token namespace name next_page]\<rparr>))
       \<and> (j_tags (body resp) \<in> {None, Some []} \<or> j_has_additional (body resp) \<in> {None, Some False} \<longrightarrow>
          get_quay_tags_loop quay_token namespace name next_page all_tags w =
            Return (all_tags @ (case j_tags (body resp) of None \<Rightarrow> [] | Some ts \<Rightarrow> ts))
              (w\<lparr>replies := evs,
                 requests := requests w @ [tags_request quay_token namespace name next_page]\<rparr>))"
  by (auto simp: get_quay_tags_loop_200 [OF assms] Let_def)

theorem get_quay_tags_page_field_witness:
  "get_quay_tags ''tok'' ''acme'' ''app''
     \<lparr>replies = [Response \<lparr>status = 200, reason = ''OK'',
                   body = \<lparr>j_tags = Some [[''name'' \<mapsto> JStr ''v1'']], j_page = None,
                           j_has_additional = Some True, j_repositories = None,
                           j_next_page = None\<rparr>\<rparr>],
      requests = [], logged = [], counter = 0\<rparr>
   = Raise (TypeError ''unsupported operand type(s) for +: NoneType and int'')
       \<lparr>replies = [], requests = [tags_request ''tok'' ''acme'' ''app'' None], logged = [],
        counter = 0\<rparr>
   \<and> get_quay_tags ''tok'' ''acme'' ''app''
     \<lparr>replies = [Response \<lparr>status = 200, reason = ''OK'',
                   body = \<lparr>j_tags = Some [[''name'' \<mapsto> JStr ''v1'']], j_page = None,
                           j_has_additional = Some False, j_repositories = None,
                           j_next_page = None\<rparr>\<rparr>],
      requests = [], logged = [], counter = 0\<rparr>
   = Return [[''name'' \<mapsto> JStr ''v1'']]
       \<lparr>replies = [], requests = [tags_request ''tok'' ''acme'' ''app'' None], logged = [],
        counter = 0\<rparr>"
  using get_quay_tags_page_field [of
      "\<lparr>replies = [Response \<lparr>status = 200, reason = ''OK'',
                   body = \<lparr>j_tags = Some [[''name'' \<mapsto> JStr ''v1'']], j_page = None,
                           j_has_additional = Some True, j_repositories = None,
                           j_next_page = None\<rparr>\<rparr>],
      requests = [], logged = [], counter = 0\<rparr>" _ "[]"
      "[''name'' \<mapsto> JStr ''v1'']" "[]" "''tok''" "''acme''" "''app''" None "[]"]
    get_quay_tags_page_field [of
      "\<lparr>replies = [Response \<lparr>status = 200, reason = ''OK'',
                   body = \<lparr>j_tags = Some [[''name'' \<mapsto> JStr ''v1'']], j_page = None,
                           j_has_additional = Some False, j_repositories = None,
                           j_next_page = None\<rparr>\<rparr>],
      requests = [], logged = [], counter = 0\<rparr>" _ "[]"
      "[''name'' \<mapsto> JStr ''v1'']" "[]" "''tok''" "''acme''" "''app''" None "[]"]
  by (simp add: get_quay_tags_def)

text \<open>
  The pages of a listing: \<open>tags_of\<close> is \<^verbatim>\<open>json_data.get("tags", [])\<close>; after a page with
  \<open>more_tags\<close> the loop goes on, with the page number \<open>page_after\<close>; a page with
  \<open>last_tags\<close> ends it.
\<close>

definition tags_of :: "http_response \<Rightarrow> pydict list" where
  "tags_of resp = (case j_tags (body resp) of None \<Rightarrow> [] | Some ts \<Rightarrow> ts)"

definition more_tags :: "http_response \<Rightarrow> bool" where
  "more_tags resp \<longleftrightarrow>
     status resp = 200 \<and> tags_of resp \<noteq> [] \<and> j_has_additional (body resp) = Some True
     \<and> j_page (body resp) \<noteq> None"

definition last_tags :: "http_response \<Rightarrow> bool" where
  "last_tags resp \<longleftrightarrow>
     status resp = 200 \<and> (tags_of resp = [] \<or> j_has_additional (body resp) \<noteq> Some True)"

definition page_after :: "http_response \<Rightarrow> int option" where
  "page_after resp = map_option (\<lambda>p. p + 1) (j_page (body resp))"

lemma get_quay_tags_loop_pages:
  assumes "\<forall>p \<in> set ps. more_tags p" and "last_tags pl"
    and "replies w = map Response (ps @ [pl]) @ evs"
  shows "get_quay_tags_loop quay_token namespace name next_page all_tags w =
     Return (all_tags @ concat (map tags_of (ps @ [pl])))
       (w\<lparr>replies := evs,
          requests := requests w
            @ map (tags_request quay_token namespace name) (next_page # map page_after ps)\<rparr>)"
  using assms
proof (induction ps arbitrary: next_page all_tags w)
  case Nil
  then have r: "replies w = Response pl # evs" and s: "status pl = 200"
    by (simp_all add: last_tags_def)
  from Nil(2) show ?case
    by (auto simp: get_quay_tags_loop_200 [OF r s] Let_def last_tags_def tags_of_def)
next
  case (Cons p ps)
  then have r: "replies w = Response p # (map Response (ps @ [pl]) @ evs)"
    and s: "status p = 200" and m: "more_tags p"
    by (simp_all add: more_tags_def)
  from m obtain k where k: "j_page (body p) = Some k" by (auto simp: more_tags_def)
  let ?w' = "w\<lparr>replies := map Response (ps @ [pl]) @ evs,
                requests := requests w @ [tags_request quay_token namespace name next_page]\<rparr>"
  have step: "get_quay_tags_loop quay_token namespace name next_page all_tags w =
      get_quay_tags_loop quay_token namespace name (Some (k + 1)) (all_tags @ tags_of p) ?w'"
    using m k by (simp add: get_quay_tags_loop_200 [OF r s] Let_def more_tags_def tags_of_def)
  have "get_quay_tags_loop quay_token namespace name (Some (k + 1)) (all_tags @ tags_of p) ?w' =
     Return ((all_tags @ tags_of p) @ concat (map tags_of (ps @ [pl])))
       (?w'\<lparr>replies := evs,
          requests := requests ?w'
            @ map (tags_request quay_token namespace name) (Some (k + 1) # map page_after ps)\<rparr>)"
    using Cons.prems by (intro Cons.IH) simp_all
  with step show ?case by (simp add: page_after_def k)
qed

text \<open>Example data: a tag and a page of tags.\<close>

definition tag_v1 :: pydict where
  "tag_v1 = [''name'' \<mapsto> JStr ''v1'', ''manifest_digest'' \<mapsto> JStr ''sha256:aaa'']"

definition tags_page :: "pydict list \<Rightarrow> int option \<Rightarrow> bool option \<Rightarrow> http_response" where
  "tags_page ts p additional =
     \<lparr>status = 200, reason = ''OK'',
      body = \<lparr>j_tags = Some ts, j_page = p, j_has_additional = additional, j_repositories = None,
              j_next_page = None\<rparr>\<rparr>"

text \<open>
  C2, as the code has it. When the registry answers with pages \<open>ps\<close> that each announce
  more and then with a page \<open>pl\<close> that is empty or announces no more, \<^verbatim>\<open>get_quay_tags\<close>
  returns the tags of all these pages, concatenated in page order and with nothing
  removed: a tag that two pages hold is returned twice. Every request carries
  \<^verbatim>\<open>limit=100\<close> and \<^verbatim>\<open>onlyActiveTags=True\<close>; the first has no \<^verbatim>\<open>page\<close>, each later one has
  the \<^verbatim>\<open>page\<close> of the response before it plus one. No request follows the page \<open>pl\<close>.
\<close>

theorem get_quay_tags_concatenates:
  assumes "\<forall>p \<in> set ps. more_tags p" and "last_tags pl"
    and "replies w = map Response (ps @ [pl]) @ evs"
  shows "get_quay_tags quay_token namespace name w =
     Return (concat (map tags_of (ps @ [pl])))
       (w\<lparr>replies := evs,
          requests := requests w
            @ map (tags_request quay_token namespace name) (None # map page_after ps)\<rparr>)"
  using get_quay_tags_loop_pages [OF assms, of quay_token namespace name None "[]"]
  by (simp add: get_quay_tags_def)

theorem get_quay_tags_concatenates_witness:
  "get_quay_tags ''tok'' ''acme'' ''app''
     \<lparr>replies = [Response (tags_page [tag_v1] (Some 7) (Some True)),
                 Response (tags_page [tag_v1, tag_v1] None None),
                 Failure ''unreachable''],
      requests = [], logged = [], counter = 0\<rparr>
   = Return [tag_v1, tag_v1, tag_v1]
      \<lparr>replies = [Failure ''unreachable''],
       requests = [tags_request ''tok'' ''acme'' ''app'' None,
                   tags_request ''tok'' ''acme'' ''app'' (Some 8)],
       logged = [], counter = 0\<rparr>"
  using get_quay_tags_concatenates [of "[tags_page [tag_v1] (Some 7) (Some True)]"
      "tags_page [tag_v1, tag_v1] None None"
      "\<lparr>replies = [Response (tags_page [tag_v1] (Some 7) (Some True)),
                 Response (tags_page [tag_v1, tag_v1] None None),
                 Failure ''unreachable''],
      requests = [], logged = [], counter = 0\<rparr>" "[Failure ''unreachable'']"
      "''tok''" "''acme''" "''app''"]
  by (simp add: more_tags_def last_tags_def tags_of_def page_after_def tags_page_def)

text \<open>
  C2 as the specification states it (the list holds each tag exactly once) fails when two
  pages hold the same tag.
\<close>

theorem get_quay_tags_duplicates:
  "get_quay_tags ''tok'' ''acme'' ''app''
     \<lparr>replies = [Response (tags_page [tag_v1] (Some 1) (Some True)),
                 Response (tags_page [tag_v1] (Some 2) (Some False))],
      requests = [], logged = [], counter = 0\<rparr>
   = Return [tag_v1, tag_v1]
      \<lparr>replies = [],
       requests = [tags_request ''tok'' ''acme'' ''app'' None,
                   tags_request ''tok'' ''acme'' ''app'' (Some 2)],
       logged = [], counter = 0\<rparr>
   \<and> \<not> distinct [tag_v1, tag_v1]"
  by (simp add: get_quay_tags_def get_quay_tags_loop_200 tags_page_def Let_def)

subsection \<open>Listing the repositories of a namespace\<close>

text \<open>
  \<^verbatim>\<open>list(fetch_image_repos(access_token, namespace))\<close>: the batches that a consumer gets
  which does nothing but take them, one \<^verbatim>\<open>next\<close> call after the other, from the
  generator state \<open>g\<close> on.
\<close>

function fetch_image_repos_list ::
  "string \<Rightarrow> string \<Rightarrow> gen_state \<Rightarrow> world \<Rightarrow> pydict list list outcome" where
  "fetch_image_repos_list access_token namespace g w =
     (case fetch_image_repos_next access_token namespace g w of
        Hang w' \<Rightarrow> Hang w'
      | Raise e w' \<Rightarrow> Raise e w'
      | Return (None, g') w' \<Rightarrow> Return [] w'
      | Return (Some repos, g') w' \<Rightarrow>
          (case fetch_image_repos_list access_token namespace g' w' of
             Hang w'' \<Rightarrow> Hang w''
           | Raise e w'' \<Rightarrow> Raise e w''
           | Return batches w'' \<Rightarrow> Return (repos # batches) w''))"
  by pat_completeness auto
termination
  by (relation "measure (\<lambda>(access_token, namespace, g, w). length (replies w))")
     (auto dest: fetch_image_repos_next_Some_replies)

declare fetch_image_repos_list.simps [simp del]

text \<open>
  The pages of a listing: \<open>repos_of\<close> is \<^verbatim>\<open>json_data.get("repositories", [])\<close>; a page
  with \<open>more_repos\<close> is yielded and followed by another request; a page with
  \<open>last_repos\<close> is the last one requested.
\<close>

definition repos_of :: "http_response \<Rightarrow> pydict list" where
  "repos_of resp = (case j_repositories (body resp) of None \<Rightarrow> [] | Some rs \<Rightarrow> rs)"

definition more_repos :: "http_response \<Rightarrow> bool" where
  "more_repos resp \<longleftrightarrow>
     status resp = 200 \<and> repos_of resp \<noteq> [] \<and> j_next_page (body resp) \<noteq> None"

definition last_repos :: "http_response \<Rightarrow> bool" where
  "last_repos resp \<longleftrightarrow>
     status resp = 200 \<and> (repos_of resp = [] \<or> j_next_page (body resp) = None)"

lemma fetch_image_repos_pass_200:
  assumes "replies w = Response resp # evs" and "status resp = 200"
  shows "fetch_image_repos_pass access_token namespace next_page w =
     (let w' = w\<lparr>replies := evs,
                 requests := requests w @ [repos_request access_token namespace next_page]\<rparr>
      in if repos_of resp = [] then Return (None, GenDone) w'
         else Return (Some (repos_of resp), GenSuspended (body resp)) w')"
  by (auto simp: fetch_image_repos_pass_def urlopen_reply [OF assms(1)] assms(2) Let_def
        repos_of_def LOGGER_debug_def split: list.splits option.splits)

text \<open>The generator is at the top of its loop with \<^verbatim>\<open>next_page\<close> when it is resumed.\<close>

definition resumes_with :: "gen_state \<Rightarrow> string option \<Rightarrow> bool" where
  "resumes_with g next_page \<longleftrightarrow>
     (case g of
        GenStart \<Rightarrow> next_page = None
      | GenSuspended json_data \<Rightarrow> next_page \<noteq> None \<and> j_next_page json_data = next_page
      | GenDone \<Rightarrow> False)"

lemma fetch_image_repos_next_resumes:
  "resumes_with g next_page \<Longrightarrow>
   fetch_image_repos_next access_token namespace g w =
   fetch_image_repos_pass access_token namespace next_page w"
  by (auto simp: resumes_with_def fetch_image_repos_next_def split: gen_state.splits option.splits)

lemma fetch_image_repos_list_pages:
  assumes "\<forall>p \<in> set ps. more_repos p" and "last_repos pl"
    and "replies w = map Response (ps @ [pl]) @ evs"
    and "resumes_with g next_page"
  shows "fetch_image_repos_list access_token namespace g w =
     Return (map repos_of ps @ (if repos_of pl = [] then [] else [repos_of pl]))
       (w\<lparr>replies := evs,
          requests := requests w
            @ map (repos_request access_token namespace)
                (next_page # map (\<lambda>p. j_next_page (body p)) ps)\<rparr>)"
  using assms
proof (induction ps arbitrary: next_page g w)
  case Nil
  then have r: "replies w = Response pl # evs" and s: "status pl = 200"
    by (simp_all add: last_repos_def)
  let ?w' = "w\<lparr>replies := evs,
                requests := requests w @ [repos_request access_token namespace next_page]\<rparr>"
  show ?case
  proof (cases "repos_of pl = []")
    case True
    then show ?thesis
      by (subst fetch_image_repos_list.simps)
         (simp add: fetch_image_repos_next_resumes [OF Nil(4)]
            fetch_image_repos_pass_200 [OF r s] Let_def)
  next
    case False
    with Nil(2) have np: "j_next_page (body pl) = None" by (simp add: last_repos_def)
    have stop: "fetch_image_repos_list access_token namespace (GenSuspended (body pl)) ?w' =
        Return [] ?w'"
      by (subst fetch_image_repos_list.simps) (simp add: fetch_image_repos_next_def np)
    from False show ?thesis
      by (subst fetch_image_repos_list.simps)
         (simp add: fetch_image_repos_next_resumes [OF Nil(4)]
            fetch_image_repos_pass_200 [OF r s] Let_def stop)
  qed
next
  case (Cons p ps)
  then have r: "replies w = Response p # (map Response (ps @ [pl]) @ evs)"
    and s: "status p = 200" and m: "more_repos p"
    by (simp_all add: more_repos_def)
  from m obtain c where c: "j_next_page (body p) = Some c" by (auto simp: more_repos_def)
  from m have ne: "repos_of p \<noteq> []" by (simp add: more_repos_def)
  let ?w' = "w\<lparr>replies := map Response (ps @ [pl]) @ evs,
                requests := requests w @ [repos_request access_token namespace next_page]\<rparr>"
  have res: "resumes_with (GenSuspended (body p)) (Some c)"
    by (simp add: resumes_with_def c)
  have "fetch_image_repos_list access_token namespace (GenSuspended (body p)) ?w' =
     Return (map repos_of ps @ (if repos_of pl = [] then [] else [repos_of pl]))
       (?w'\<lparr>replies := evs,
          requests := requests ?w'
            @ map (repos_request access_token namespace)
                (Some c # map (\<lambda>p. j_next_page (body p)) ps)\<rparr>)"
    using Cons.prems res by (intro Cons.IH) simp_all
  with ne show ?case
    by (subst fetch_image_repos_list.simps)
       (simp add: fetch_image_repos_next_resumes [OF Cons.prems(4)]
          fetch_image_repos_pass_200 [OF r s] Let_def c)
qed

text \<open>Example data: repositories, a page of repositories, a failing response.\<close>

definition example_repo :: "string \<Rightarrow> pydict" where
  "example_repo n = [''namespace'' \<mapsto> JStr ''acme'', ''name'' \<mapsto> JStr n]"

definition repos_page :: "pydict list \<Rightarrow> string option \<Rightarrow> http_response" where
  "repos_page rs cursor =
     \<lparr>status = 200, reason = ''OK'',
      body = \<lparr>j_tags = None, j_page = None, j_has_additional = None, j_repositories = Some rs,
              j_next_page = cursor\<rparr>\<rparr>"

definition server_error :: http_response where
  "server_error =
     \<lparr>status = 500, reason = ''Internal Server Error'',
      body = \<lparr>j_tags = None, j_page = None, j_has_additional = None, j_repositories = None,
              j_next_page = None\<rparr>\<rparr>"

definition example_args :: args where
  "example_args = \<lparr>args_namespace = ''acme'', args_dry_run = False\<rparr>"

text \<open>
  C7. When the registry answers with pages \<open>ps\<close> that each hold repositories and a
  cursor, and then with a page \<open>pl\<close> that is empty or has no cursor, the generator
  yields the batches of \<open>ps\<close> in page order, then the batch of \<open>pl\<close> unless it is empty,
  and stops there: the items yielded are those of all the pages, in order. The first
  request has no \<^verbatim>\<open>next_page\<close>, each later one carries the cursor of the response before
  it, and no request follows the page \<open>pl\<close>.
\<close>

theorem fetch_image_repos_yields_pages:
  assumes "\<forall>p \<in> set ps. more_repos p" and "last_repos pl"
    and "replies w = map Response (ps @ [pl]) @ evs"
  shows "fetch_image_repos_list access_token namespace GenStart w =
     Return (map repos_of ps @ (if repos_of pl = [] then [] else [repos_of pl]))
       (w\<lparr>replies := evs,
          requests := requests w
            @ map (repos_request access_token namespace)
                (None # map (\<lambda>p. j_next_page (body p)) ps)\<rparr>)
   \<and> concat (map repos_of ps @ (if repos_of pl = [] then [] else [repos_of pl])) =
       concat (map repos_of (ps @ [pl]))"
proof -
  have "resumes_with GenStart None" by (simp add: resumes_with_def)
  from fetch_image_repos_list_pages [OF assms this] show ?thesis by simp
qed

theorem fetch_image_repos_yields_pages_witness:
  "fetch_image_repos_list ''tok'' ''acme'' GenStart
     \<lparr>replies = [Response (repos_page [example_repo ''a'', example_repo ''b''] (Some ''c1'')),
                 Response (repos_page [example_repo ''c''] (Some ''c2'')),
                 Response (repos_page [example_repo ''d''] None),
                 Response server_error],
      requests = [], logged = [], counter = 0\<rparr>
   = Return [[example_repo ''a'', example_repo ''b''], [example_repo ''c''], [example_repo ''d'']]
     \<lparr>replies = [Response server_error],
      requests = [repos_request ''tok'' ''acme'' None,
                  repos_request ''tok'' ''acme'' (Some ''c1''),
                  repos_request ''tok'' ''acme'' (Some ''c2'')],
      logged = [], counter = 0\<rparr>
   \<and> fetch_image_repos_list ''tok'' ''acme'' GenStart
     \<lparr>replies = [Response (repos_page [example_repo ''a''] (Some ''c1'')),
                 Response (repos_page [] (Some ''c2'')),
                 Response server_error],
      requests = [], logged = [], counter = 0\<rparr>
   = Return [[example_repo ''a'']]
     \<lparr>replies = [Response server_error],
      requests = [repos_request ''tok'' ''acme'' None,
                  repos_request ''tok'' ''acme'' (Some ''c1'')],
      logged = [], counter = 0\<rparr>"
  using fetch_image_repos_yields_pages [of
      "[repos_page [example_repo ''a'', example_repo ''b''] (Some ''c1''),
        repos_page [example_repo ''c''] (Some ''c2'')]"
      "repos_page [example_repo ''d''] None"
      "\<lparr>replies = [Response (repos_page [example_repo ''a'', example_repo ''b''] (Some ''c1'')),
                 Response (repos_page [example_repo ''c''] (Some ''c2'')),
                 Response (repos_page [example_repo ''d''] None),
                 Response server_error],
      requests = [], logged = [], counter = 0\<rparr>"
      "[Response server_error]" "''tok''" "''acme''"]
    fetch_image_repos_yields_pages [of
      "[repos_page [example_repo ''a''] (Some ''c1'')]"
      "repos_page [] (Some ''c2'')"
      "\<lparr>replies = [Response (repos_page [example_repo ''a''] (Some ''c1'')),
                 Response (repos_page [] (Some ''c2'')),
                 Response server_error],
      requests = [], logged = [], counter = 0\<rparr>"
      "[Response server_error]" "''tok''" "''acme''"]
  by (simp add: more_repos_def last_repos_def repos_of_def repos_page_def)

subsection \<open>What the tag pattern matches\<close>

text \<open>\<open>adv k st\<close>: the match state \<open>st\<close> after reading \<open>k\<close> more characters.\<close>

definition adv :: "nat \<Rightarrow> mstate \<Rightarrow> mstate" where
  "adv k st = st\<lparr>pos := pos st + k, rest := drop k (rest st)\<rparr>"

lemma adv_simps [simp]:
  "pos (adv k st) = pos st + k" "rest (adv k st) = drop k (rest st)"
  "groups (adv k st) = groups st"
  by (simp_all add: adv_def)

lemma adv_adv: "adv j (adv k st) = adv (k + j) st"
  by (simp add: adv_def add.assoc add.commute)

lemma advance_adv: "advance st = adv 1 st"
  by (simp add: advance_def adv_def drop_Suc)

lemma adv_0 [simp]: "adv 0 st = st"
  by (simp add: adv_def)

lemma rmatch_Chr:
  "rmatch (Chr c) st = (if take 1 (rest st) = [c] then [adv 1 st] else [])"
  by (cases "rest st") (auto simp: advance_adv)

lemma rmatch_lit:
  "s \<noteq> [] \<Longrightarrow>
   rmatch (lit s) st = (if take (length s) (rest st) = s then [adv (length s) st] else [])"
proof (induction s arbitrary: st rule: lit.induct)
  case 1
  then show ?case by simp
next
  case (2 c)
  show ?case by (simp add: rmatch_Chr del: rmatch.simps)
next
  case (3 c v va)
  have "rmatch (lit (c # v # va)) st =
      (if take 1 (rest st) = [c] then rmatch (lit (v # va)) (adv 1 st) else [])"
    by (simp add: rmatch_Chr del: rmatch.simps(4))
  also have "\<dots> = (if take 1 (rest st) = [c] \<and> take (length (v # va)) (drop 1 (rest st)) = v # va
      then [adv (1 + length (v # va)) st] else [])"
    by (simp add: "3.IH" adv_adv del: rmatch.simps)
  also have "take 1 (rest st) = [c] \<and> take (length (v # va)) (drop 1 (rest st)) = v # va
      \<longleftrightarrow> take (length (c # v # va)) (rest st) = c # v # va"
    by (cases "rest st") auto
  finally show ?case by simp
qed

text \<open>Greedy repetition of a character class: all the places to stop, the farthest first.\<close>

lemma plus_iter_Cls:
  "length (rest st) < n \<Longrightarrow>
   plus_iter (rmatch (Cls rs)) n st =
     map (\<lambda>k. adv k st) (rev [1 ..< Suc (length (takeWhile (in_ranges rs) (rest st)))])"
proof (induction n arbitrary: st)
  case 0
  then show ?case by simp
next
  case (Suc n)
  show ?case
  proof (cases "rest st")
    case Nil
    then show ?thesis by simp
  next
    case (Cons x xs)
    show ?thesis
    proof (cases "in_ranges rs x")
      case False
      with Cons show ?thesis by simp
    next
      case True
      let ?m = "length (takeWhile (in_ranges rs) xs)"
      from Suc.prems Cons have "length (rest (adv 1 st)) < n" by simp
      from Suc.IH [OF this] Cons
      have ih: "plus_iter (rmatch (Cls rs)) n (adv 1 st) =
          map (\<lambda>k. adv (Suc k) st) (rev [1 ..< Suc ?m])"
        by (simp add: adv_adv del: upt_Suc rmatch.simps)
      have r: "rmatch (Cls rs) st = [adv 1 st]"
        using Cons True by (simp add: advance_adv)
      have lhs: "plus_iter (rmatch (Cls rs)) (Suc n) st =
          plus_iter (rmatch (Cls rs)) n (adv 1 st) @ [adv 1 st]"
        using Cons by (simp add: r del: rmatch.simps)
      have "[1 ..< Suc (Suc ?m)] = 1 # map Suc [1 ..< Suc ?m]"
        by (simp add: upt_conv_Cons map_Suc_upt del: upt_Suc)
      then have rhs: "map (\<lambda>k. adv k st) (rev [1 ..< Suc (Suc ?m)]) =
          map (\<lambda>k. adv (Suc k) st) (rev [1 ..< Suc ?m]) @ [adv 1 st]"
        by (simp add: rev_map comp_def del: upt_Suc)
      have len: "length (takeWhile (in_ranges rs) (rest st)) = Suc ?m"
        using Cons True by simp
      show ?thesis
        unfolding lhs ih len rhs ..
    qed
  qed
qed

lemma take_drop_eq: "take (length s) r = s \<and> drop (length s) r = t \<longleftrightarrow> r = s @ t"
  by (metis append_eq_conv_conj)

text \<open>\<open>ends s r\<close>: the text \<open>r\<close> is \<open>s\<close>, up to one final newline (what \<^verbatim>\<open>s$\<close> accepts).\<close>

definition ends :: "string \<Rightarrow> string \<Rightarrow> bool" where
  "ends s r \<longleftrightarrow> r = s \<or> r = s @ [CHR 0x0A]"

lemma ends_take_drop:
  "ends s r \<longleftrightarrow> take (length s) r = s \<and> (drop (length s) r = [] \<or> drop (length s) r = [CHR 0x0A])"
  using take_drop_eq [of s r "[]"] take_drop_eq [of s r "[CHR 0x0A]"]
  by (auto simp: ends_def)

lemma rmatch_lit_Eol:
  assumes "s \<noteq> []"
  shows "concat (map (rmatch Eol)
           (map (\<lambda>st'. st'\<lparr>groups := (groups st')(i \<mapsto> take (pos st' - pos st) (rest st))\<rparr>)
              (rmatch (lit s) st))) =
         (if ends s (rest st) then [(adv (length s) st)\<lparr>groups := (groups st)(i \<mapsto> s)\<rparr>] else [])"
  by (auto simp: rmatch_lit [OF assms] ends_take_drop simp del: lit.simps)

lemma rmatch_suffixes:
  assumes "a \<noteq> []" "b \<noteq> []" "c \<noteq> []" "d \<noteq> []"
  shows "rmatch (Cat (Group i (Alt (lit a) (Alt (lit b) (Alt (lit c) (lit d))))) Eol) st =
     concat (map (\<lambda>s. if ends s (rest st)
                        then [(adv (length s) st)\<lparr>groups := (groups st)(i \<mapsto> s)\<rparr>] else [])
               [a, b, c, d])"
  using rmatch_lit_Eol [OF assms(1), of i st] rmatch_lit_Eol [OF assms(2), of i st]
    rmatch_lit_Eol [OF assms(3), of i st] rmatch_lit_Eol [OF assms(4), of i st]
  by (simp del: lit.simps rmatch.simps(3) add: rmatch.simps(6-9))

text \<open>
  The names the pattern matches, said directly: \<^verbatim>\<open>sha256-\<close>, then one or more characters
  of \<^verbatim>\<open>0-9a-f\<close>, as many as there are, then one of the four suffixes, then the end of
  the name or one final newline. The digest is \<^verbatim>\<open>sha256:\<close> and the hexadecimal part.
\<close>

definition is_hex :: "char \<Rightarrow> bool" where
  "is_hex c = in_ranges [(CHR ''0'', CHR ''9''), (CHR ''a'', CHR ''f'')] c"

definition suffixes :: "string list" where
  "suffixes = [''.sbom'', ''.att'', ''.src'', ''.sig'']"

definition tag_name_digest :: "string \<Rightarrow> string option" where
  "tag_name_digest n =
     (let hex = takeWhile is_hex (drop 7 n);
          tail = dropWhile is_hex (drop 7 n)
      in if take 7 n = ''sha256-'' \<and> hex \<noteq> [] \<and> list_ex (\<lambda>s. ends s tail) suffixes
         then Some (''sha256:'' @ hex) else None)"

lemma first_of_filtered:
  assumes "\<And>s. h (g s) = D"
  shows "map_option h (case concat (map (\<lambda>s. if P s then [g s] else []) xs) of
                          [] \<Rightarrow> None | x # _ \<Rightarrow> Some x) =
         (if list_ex P xs then Some D else None)"
  by (induction xs) (auto simp: assms)

lemma concat_candidates:
  assumes "\<And>k. 1 \<le> k \<Longrightarrow> k < m \<Longrightarrow> f k = []"
  shows "concat (map f (rev [1 ..< Suc m])) = (if m = 0 then [] else f m)"
proof (cases m)
  case 0
  then show ?thesis by simp
next
  case (Suc j)
  have "concat (map f (rev [1 ..< m])) = []"
    using assms by (auto simp del: upt_Suc)
  with Suc show ?thesis by simp
qed

lemma not_hex_dot: "\<not> is_hex CHR ''.''"
  by (simp add: is_hex_def in_ranges_def)

lemma ends_suffix_dot:
  "s \<in> set suffixes \<Longrightarrow> ends s (c # r) \<Longrightarrow> c = CHR ''.''"
  by (auto simp: suffixes_def ends_def)

lemma sha_prefix:
  "rmatch (lit ''sha256-'') st = (if take 7 (rest st) = ''sha256-'' then [adv 7 st] else [])"
proof -
  have ne: "''sha256-'' \<noteq> []" and len: "length ''sha256-'' = 7" by simp_all
  show ?thesis by (rule rmatch_lit [OF ne, of st, unfolded len])
qed

lemma tag_regex_digest:
  "map_option digest_of_match (re_match tag_regex n) = tag_name_digest n"
proof -
  let ?st0 = "\<lparr>pos = 0, rest = n, groups = Map.empty\<rparr>"
  let ?st1 = "adv 7 ?st0"
  let ?T = "Cat (Group 2 (Alt (lit ''.sbom'') (Alt (lit ''.att'') (Alt (lit ''.src'') (lit ''.sig''))))) Eol"
  let ?H = "Group 1 (Plus (Cls [(CHR ''0'', CHR ''9''), (CHR ''a'', CHR ''f'')]))"
  define r where "r = drop 7 n"
  define m where "m = length (takeWhile is_hex r)"
  define cand where "cand k = (adv k ?st1)\<lparr>groups := [1 \<mapsto> take k r]\<rparr>" for k
  have rest_cand: "rest (cand k) = drop k r" for k
    by (simp add: cand_def r_def)
  have groups_cand: "groups (cand k) 1 = Some (take k r)" for k
    by (simp add: cand_def)
  have T: "rmatch ?T st =
     concat (map (\<lambda>s. if ends s (rest st)
                        then [(adv (length s) st)\<lparr>groups := (groups st)(2 \<mapsto> s)\<rparr>] else [])
               suffixes)" for st
    unfolding suffixes_def by (rule rmatch_suffixes) simp_all
  have H: "rmatch ?H ?st1 = map cand (rev [1 ..< Suc m])"
    unfolding m_def r_def cand_def
    by (simp add: plus_iter_Cls is_hex_def [abs_def] adv_def
          del: upt_Suc plus_iter.simps rmatch.simps(5))
  have skip: "rmatch ?T (cand k) = []" if "1 \<le> k" and "k < m" for k
  proof -
    from that have "k < length r"
      using length_takeWhile_le [of is_hex r] by (simp add: m_def)
    then have d: "drop k r = r ! k # drop (Suc k) r"
      by (simp add: Cons_nth_drop_Suc)
    have "is_hex (r ! k)"
      using that(2) unfolding m_def by (metis nth_mem set_takeWhileD takeWhile_nth)
    with not_hex_dot have "r ! k \<noteq> CHR ''.''" by auto
    with d have "\<not> ends s (rest (cand k))" if "s \<in> set suffixes" for s
      using ends_suffix_dot [OF that, of "r ! k" "drop (Suc k) r"]
      by (auto simp: rest_cand)
    then show ?thesis
      unfolding T by (auto simp: suffixes_def)
  qed
  have all: "rmatch tag_regex ?st0 =
      (if take 7 n = ''sha256-'' \<and> m \<noteq> 0 then rmatch ?T (cand m) else [])"
  proof -
    have "rmatch tag_regex ?st0 =
        concat (map (rmatch (Cat ?H ?T)) (rmatch (lit ''sha256-'') ?st0))"
      unfolding tag_regex_def by (simp only: rmatch.simps(2,6) mstate.simps simp_thms if_True list.map concat.simps append_Nil2)
    also have "\<dots> = (if take 7 n = ''sha256-'' then rmatch (Cat ?H ?T) ?st1 else [])"
      by (simp add: sha_prefix del: rmatch.simps lit.simps)
    also have "rmatch (Cat ?H ?T) ?st1 = concat (map (rmatch ?T) (rmatch ?H ?st1))"
      by (simp only: rmatch.simps(6))
    finally have "rmatch tag_regex ?st0 =
        (if take 7 n = ''sha256-'' then concat (map (rmatch ?T) (rmatch ?H ?st1)) else [])" .
    also have "concat (map (rmatch ?T) (rmatch ?H ?st1)) =
        concat (map (\<lambda>k. rmatch ?T (cand k)) (rev [1 ..< Suc m]))"
      unfolding H by (simp add: comp_def del: upt_Suc rmatch.simps)
    also have "\<dots> = (if m = 0 then [] else rmatch ?T (cand m))"
      by (rule concat_candidates) (rule skip)
    finally show ?thesis by (simp del: rmatch.simps)
  qed
  have tk: "take m r = takeWhile is_hex r"
    unfolding m_def by (rule takeWhile_eq_take [symmetric])
  have tail: "rest (cand m) = dropWhile is_hex r"
    by (simp add: rest_cand m_def dropWhile_eq_drop)
  have digest: "digest_of_match ((adv (length s) (cand m))\<lparr>groups := (groups (cand m))(2 \<mapsto> s)\<rparr>)
      = ''sha256:'' @ takeWhile is_hex r" for s
    by (simp add: digest_of_match_def groups_cand [unfolded One_nat_def] tk)
  have "map_option digest_of_match (re_match tag_regex n) =
      (if take 7 n = ''sha256-'' \<and> m \<noteq> 0
       then map_option digest_of_match (case rmatch ?T (cand m) of [] \<Rightarrow> None | x # _ \<Rightarrow> Some x)
       else None)"
    unfolding re_match_def all by (simp del: rmatch.simps)
  also have "map_option digest_of_match (case rmatch ?T (cand m) of [] \<Rightarrow> None | x # _ \<Rightarrow> Some x)
      = (if list_ex (\<lambda>s. ends s (dropWhile is_hex r)) suffixes
         then Some (''sha256:'' @ takeWhile is_hex r) else None)"
    unfolding T tail [symmetric] by (rule first_of_filtered) (rule digest)
  finally show ?thesis
    by (auto simp: tag_name_digest_def Let_def r_def m_def)
qed

subsection \<open>Reporting and deleting orphaned tags\<close>

text \<open>Whatever the registry answers, \<^verbatim>\<open>delete_image_tag\<close> sends one request and logs nothing.\<close>

lemma delete_image_tag_final_world:
  "requests (final_world (delete_image_tag quay_token namespace name tag w)) =
     requests w @ [delete_request quay_token namespace name tag]
   \<and> logged (final_world (delete_image_tag quay_token namespace name tag w)) = logged w"
  by (auto simp: delete_image_tag_def urlopen_def Let_def
        split: list.splits net_event.splits outcome.splits error.splits)

text \<open>
  The message that \<^verbatim>\<open>remove_tags\<close> logs for a tag it selects, and the test that selects
  a tag name: the pattern matches and the digest it names is not among \<^verbatim>\<open>image_digests\<close>.
\<close>

definition report_msg :: "bool \<Rightarrow> string \<Rightarrow> string \<Rightarrow> string \<Rightarrow> string" where
  "report_msg dry_run namespace name tag_name =
     (if dry_run then should_be_removed_msg tag_name namespace name
      else removing_msg tag_name namespace name)"

definition orphan_name :: "jval list \<Rightarrow> string \<Rightarrow> bool" where
  "orphan_name image_digests tag_name =
     (case re_match tag_regex tag_name of
        None \<Rightarrow> False
      | Some m \<Rightarrow> JStr (digest_of_match m) \<notin> set image_digests)"

text \<open>The same test, read off the name directly.\<close>

lemma orphan_name_digest:
  "orphan_name ds n \<longleftrightarrow> (\<exists>d. tag_name_digest n = Some d \<and> JStr d \<notin> set ds)"
proof (cases "re_match tag_regex n")
  case None
  with tag_regex_digest [of n] show ?thesis by (simp add: orphan_name_def)
next
  case (Some m)
  with tag_regex_digest [of n] have "tag_name_digest n = Some (digest_of_match m)" by simp
  with Some show ?thesis by (simp add: orphan_name_def)
qed

lemma remove_tags_loop_Cons_orphan:
  assumes "tag ''name'' = Some (JStr tn)" and "orphan_name ds tn"
  shows "remove_tags_loop ds (tag # tags) tok ns nm dry w =
     (if dry then remove_tags_loop ds tags tok ns nm dry
                    (LOGGER_info (should_be_removed_msg tn ns nm) w)
      else (case delete_image_tag tok ns nm tn (LOGGER_info (removing_msg tn ns nm) w) of
              Return u w' \<Rightarrow> remove_tags_loop ds tags tok ns nm dry w'
            | Raise e w' \<Rightarrow> Raise e w'
            | Hang w' \<Rightarrow> Hang w'))"
  using assms by (auto simp: orphan_name_def split: option.splits)

lemma remove_tags_loop_Cons_keep:
  assumes "tag ''name'' = Some (JStr tn)" and "\<not> orphan_name ds tn"
  shows "remove_tags_loop ds (tag # tags) tok ns nm dry w = remove_tags_loop ds tags tok ns nm dry w"
  using assms by (auto simp: orphan_name_def split: option.splits)

lemma remove_tags_loop_Cons_unnamed:
  assumes "\<forall>tn. tag ''name'' \<noteq> Some (JStr tn)"
  shows "final_world (remove_tags_loop ds (tag # tags) tok ns nm dry w) = w"
  using assms by (auto split: option.splits jval.splits)

lemma remove_tags_loop_effects:
  "\<exists>names.
     logged (final_world (remove_tags_loop ds tags tok ns nm dry w)) =
       logged w @ map (report_msg dry ns nm) names
   \<and> requests (final_world (remove_tags_loop ds tags tok ns nm dry w)) =
       requests w @ (if dry then [] else map (delete_request tok ns nm) names)
   \<and> (\<forall>n \<in> set names. (\<exists>t \<in> set tags. t ''name'' = Some (JStr n)) \<and> orphan_name ds n)"
  (is "\<exists>names. ?P tags w names")
proof (induction tags arbitrary: w)
  case Nil
  have p: "?P [] w []" by simp
  show ?case by (rule exI [of _ "[]"]) (rule p)
next
  case (Cons tag tags)
  show ?case
  proof (cases "\<exists>tn. tag ''name'' = Some (JStr tn)")
    case False
    then have "final_world (remove_tags_loop ds (tag # tags) tok ns nm dry w) = w"
      by (intro remove_tags_loop_Cons_unnamed [of tag]) simp
    then have p: "?P (tag # tags) w []" by simp
    show ?thesis by (rule exI [of _ "[]"]) (rule p)
  next
    case True
    then obtain tn where tn: "tag ''name'' = Some (JStr tn)" ..
    show ?thesis
    proof (cases "orphan_name ds tn")
      case False
      from Cons.IH [of w] obtain names where "?P tags w names" ..
      then have p: "?P (tag # tags) w names"
        by (simp add: remove_tags_loop_Cons_keep [of tag, OF tn False] del: remove_tags_loop.simps)
      show ?thesis by (rule exI [of _ "names"]) (rule p)
    next
      case orphan: True
      note unfold = remove_tags_loop_Cons_orphan [of tag, OF tn orphan]
      show ?thesis
      proof (cases dry)
        case True
        let ?w1 = "LOGGER_info (should_be_removed_msg tn ns nm) w"
        from Cons.IH [of ?w1] obtain names where "?P tags ?w1 names" ..
        with True tn orphan have p: "?P (tag # tags) w (tn # names)"
          by (simp add: unfold report_msg_def LOGGER_info_def del: remove_tags_loop.simps)
        show ?thesis by (rule exI [of _ "tn # names"]) (rule p)
      next
        case False
        let ?w1 = "LOGGER_info (removing_msg tn ns nm) w"
        note d = delete_image_tag_final_world [of tok ns nm tn ?w1]
        show ?thesis
        proof (cases "delete_image_tag tok ns nm tn ?w1")
          case (Return u w2)
          from Cons.IH [of w2] obtain names where "?P tags w2 names" ..
          with False tn orphan d Return have p: "?P (tag # tags) w (tn # names)"
            by (simp add: unfold report_msg_def LOGGER_info_def del: remove_tags_loop.simps)
          show ?thesis by (rule exI [of _ "tn # names"]) (rule p)
        next
          case (Raise e w2)
          with False tn orphan d have p: "?P (tag # tags) w [tn]"
            by (simp add: unfold report_msg_def LOGGER_info_def del: remove_tags_loop.simps)
          show ?thesis by (rule exI [of _ "[tn]"]) (rule p)
        next
          case (Hang w2)
          with False tn orphan d have p: "?P (tag # tags) w [tn]"
            by (simp add: unfold report_msg_def LOGGER_info_def del: remove_tags_loop.simps)
          show ?thesis by (rule exI [of _ "[tn]"]) (rule p)
        qed
      qed
    qed
  qed
qed

lemma image_digests_of_set:
  "image_digests_of tags = Inr ds \<Longrightarrow>
   set ds = {d. \<exists>t \<in> set tags. t ''manifest_digest'' = Some d}"
  by (induction tags arbitrary: ds) (auto split: option.splits sum.splits)

lemma latest_no_match: "re_match tag_regex ''latest'' = None"
  by (simp add: re_match_def tag_regex_def advance_def)

text \<open>Example data: the three tags of the specification's example, and three more.\<close>

definition example_tags :: "pydict list" where
  "example_tags =
     [[''name'' \<mapsto> JStr ''v1'', ''manifest_digest'' \<mapsto> JStr ''sha256:aaa''],
      [''name'' \<mapsto> JStr ''sha256-aaa.sbom'', ''manifest_digest'' \<mapsto> JStr ''sha256:bbb''],
      [''name'' \<mapsto> JStr ''sha256-ccc.att'', ''manifest_digest'' \<mapsto> JStr ''sha256:ddd'']]"

lemmas regex_eval = re_match_def tag_regex_def advance_def in_ranges_def digest_of_match_def

lemma example_names:
  "re_match tag_regex ''v1'' = None"
  "map_option digest_of_match (re_match tag_regex ''sha256-aaa.sbom'') = Some ''sha256:aaa''"
  "map_option digest_of_match (re_match tag_regex ''sha256-ccc.att'') = Some ''sha256:ccc''"
  by (simp_all add: regex_eval)

lemma example_orphans:
  "\<not> orphan_name ds ''v1''"
  "orphan_name ds ''sha256-aaa.sbom'' \<longleftrightarrow> JStr ''sha256:aaa'' \<notin> set ds"
  "orphan_name ds ''sha256-ccc.att'' \<longleftrightarrow> JStr ''sha256:ccc'' \<notin> set ds"
  using example_names by (auto simp: orphan_name_def split: option.splits)

lemma example_tags_loop:
  "remove_tags_loop [JStr ''sha256:aaa'', JStr ''sha256:bbb'', JStr ''sha256:ddd''] example_tags
     tok ns nm dry w =
   (if dry then Return () (LOGGER_info (should_be_removed_msg ''sha256-ccc.att'' ns nm) w)
    else case delete_image_tag tok ns nm ''sha256-ccc.att''
                (LOGGER_info (removing_msg ''sha256-ccc.att'' ns nm) w) of
           Return u w' \<Rightarrow> Return () w'
         | Raise e w' \<Rightarrow> Raise e w'
         | Hang w' \<Rightarrow> Hang w')"
  unfolding example_tags_def
  apply (subst remove_tags_loop_Cons_keep [where tn = "''v1''"])
    apply (simp_all add: example_orphans) [2]
  apply (subst remove_tags_loop_Cons_keep [where tn = "''sha256-aaa.sbom''"])
    apply (simp_all add: example_orphans) [2]
  apply (subst remove_tags_loop_Cons_orphan [where tn = "''sha256-ccc.att''"])
    apply (simp_all add: example_orphans split: outcome.splits)
  done

definition latest_tags :: "pydict list" where
  "latest_tags =
     [[''name'' \<mapsto> JStr ''latest'', ''manifest_digest'' \<mapsto> JStr ''sha256:0a''],
      [''name'' \<mapsto> JStr ''sha256-0a.sig'', ''manifest_digest'' \<mapsto> JStr ''sha256:1b''],
      [''name'' \<mapsto> JStr ''sha256-2c.src'', ''manifest_digest'' \<mapsto> JStr ''sha256:3d'']]"

lemma latest_tags_dry_run:
  "remove_tags latest_tags tok ns nm True w =
     Return () (w\<lparr>logged := logged w @ [should_be_removed_msg ''sha256-2c.src'' ns nm]\<rparr>)"
  by (simp add: remove_tags_def latest_tags_def regex_eval LOGGER_info_def LOGGER_debug_def)

text \<open>
  C1. Whatever \<^verbatim>\<open>remove_tags\<close> does on a list of tags (it may return, raise or hang),
  what it has logged and requested by then is the report (dry run) or the removal
  message and the \<^verbatim>\<open>DELETE\<close> request (otherwise) of a list of tag names. Each of these
  names is the name of a tag of the list, matches the pattern, and the digest
  \<^verbatim>\<open>sha256:<group 1>\<close> is not the \<^verbatim>\<open>manifest_digest\<close> of any tag of the list. The name
  \<^verbatim>\<open>latest\<close> is never among them.
\<close>

theorem remove_tags_reports_only_orphans:
  "\<exists>names.
     logged (final_world (remove_tags tags quay_token namespace name dry_run w)) =
       logged w @ map (report_msg dry_run namespace name) names
   \<and> requests (final_world (remove_tags tags quay_token namespace name dry_run w)) =
       requests w @ (if dry_run then [] else map (delete_request quay_token namespace name) names)
   \<and> (\<forall>n \<in> set names.
         (\<exists>t \<in> set tags. t ''name'' = Some (JStr n))
       \<and> (\<exists>m. re_match tag_regex n = Some m
              \<and> (\<forall>t \<in> set tags. t ''manifest_digest'' \<noteq> Some (JStr (digest_of_match m)))))
   \<and> ''latest'' \<notin> set names"
proof (cases "image_digests_of tags")
  case (Inl e)
  then have "final_world (remove_tags tags quay_token namespace name dry_run w) = w"
    by (simp add: remove_tags_def)
  then show ?thesis by (intro exI [of _ "[]"]) simp
next
  case (Inr ds)
  from remove_tags_loop_effects [of ds tags quay_token namespace name dry_run w]
  obtain names where
    l: "logged (final_world (remove_tags_loop ds tags quay_token namespace name dry_run w)) =
          logged w @ map (report_msg dry_run namespace name) names"
    and r: "requests (final_world (remove_tags_loop ds tags quay_token namespace name dry_run w)) =
          requests w @ (if dry_run then [] else map (delete_request quay_token namespace name) names)"
    and o: "\<forall>n \<in> set names. (\<exists>t \<in> set tags. t ''name'' = Some (JStr n)) \<and> orphan_name ds n"
    by blast
  have eq: "remove_tags tags quay_token namespace name dry_run w =
      remove_tags_loop ds tags quay_token namespace name dry_run w"
    by (simp add: remove_tags_def Inr)
  have mem: "\<forall>t \<in> set tags. t ''manifest_digest'' \<noteq> Some d" if "d \<notin> set ds" for d
    using that unfolding image_digests_of_set [OF Inr] by blast
  have absent: "\<exists>m. re_match tag_regex n = Some m
      \<and> (\<forall>t \<in> set tags. t ''manifest_digest'' \<noteq> Some (JStr (digest_of_match m)))"
    if "orphan_name ds n" for n
  proof (cases "re_match tag_regex n")
    case None
    with that show ?thesis by (simp add: orphan_name_def)
  next
    case (Some m)
    with that have "JStr (digest_of_match m) \<notin> set ds" by (simp add: orphan_name_def)
    from mem [OF this] Some show ?thesis by simp
  qed
  have latest: "''latest'' \<notin> set names"
  proof
    assume "''latest'' \<in> set names"
    with o have "orphan_name ds ''latest''" by blast
    then show False by (simp add: orphan_name_def latest_no_match)
  qed
  show ?thesis
  proof (intro exI [of _ names] conjI ballI)
    show "logged (final_world (remove_tags tags quay_token namespace name dry_run w)) =
       logged w @ map (report_msg dry_run namespace name) names"
      unfolding eq by (rule l)
    show "requests (final_world (remove_tags tags quay_token namespace name dry_run w)) =
       requests w @ (if dry_run then [] else map (delete_request quay_token namespace name) names)"
      unfolding eq by (rule r)
    show "''latest'' \<notin> set names" by (rule latest)
  next
    fix n assume n: "n \<in> set names"
    with o show "\<exists>t \<in> set tags. t ''name'' = Some (JStr n)" by blast
    from n o have "orphan_name ds n" by blast
    then show "\<exists>m. re_match tag_regex n = Some m
      \<and> (\<forall>t \<in> set tags. t ''manifest_digest'' \<noteq> Some (JStr (digest_of_match m)))"
      by (rule absent)
  qed
qed

theorem remove_tags_reports_only_orphans_witness:
  "\<exists>names.
     [should_be_removed_msg ''sha256-2c.src'' ''acme'' ''app''] =
       map (report_msg True ''acme'' ''app'') names
   \<and> (\<forall>n \<in> set names.
         (\<exists>t \<in> set latest_tags. t ''name'' = Some (JStr n))
       \<and> (\<exists>m. re_match tag_regex n = Some m
              \<and> (\<forall>t \<in> set latest_tags. t ''manifest_digest'' \<noteq> Some (JStr (digest_of_match m)))))
   \<and> ''latest'' \<notin> set names"
  using remove_tags_reports_only_orphans [of latest_tags "''tok''" "''acme''" "''app''" True
      "\<lparr>replies = [], requests = [], logged = [], counter = 0\<rparr>"]
  unfolding latest_tags_dry_run by simp

text \<open>
  C3. On the three example tags, a dry run reports exactly \<^verbatim>\<open>sha256-ccc.att\<close>, and a
  real run logs its removal and sends exactly the \<^verbatim>\<open>DELETE\<close> for it. The tag
  \<^verbatim>\<open>sha256-aaa.sbom\<close> is kept: \<^verbatim>\<open>sha256:aaa\<close> is the digest of \<^verbatim>\<open>v1\<close>.
\<close>

theorem example_tags_select_ccc_att:
  "remove_tags example_tags quay_token ''acme'' ''app'' True w =
     Return () (w\<lparr>logged := logged w @ [''Tag sha256-ccc.att from acme/app should be removed'']\<rparr>)
   \<and> requests (final_world (remove_tags example_tags quay_token ''acme'' ''app'' False w)) =
       requests w @ [delete_request quay_token ''acme'' ''app'' ''sha256-ccc.att'']
   \<and> logged (final_world (remove_tags example_tags quay_token ''acme'' ''app'' False w)) =
       logged w @ [''Removing tag sha256-ccc.att from acme/app'']"
proof -
  have ds: "image_digests_of example_tags =
      Inr [JStr ''sha256:aaa'', JStr ''sha256:bbb'', JStr ''sha256:ddd'']"
    by (simp add: example_tags_def)
  let ?w1 = "LOGGER_info (removing_msg ''sha256-ccc.att'' ''acme'' ''app'') w"
  have live: "final_world (remove_tags example_tags quay_token ''acme'' ''app'' False w) =
      final_world (delete_image_tag quay_token ''acme'' ''app'' ''sha256-ccc.att'' ?w1)"
    by (simp add: remove_tags_def ds example_tags_loop split: outcome.splits)
  have dry: "remove_tags example_tags quay_token ''acme'' ''app'' True w =
     Return () (w\<lparr>logged := logged w @ [''Tag sha256-ccc.att from acme/app should be removed'']\<rparr>)"
    by (simp add: remove_tags_def ds example_tags_loop LOGGER_info_def should_be_removed_msg_def)
  from delete_image_tag_final_world [of quay_token "''acme''" "''app''" "''sha256-ccc.att''" ?w1]
  show ?thesis
    unfolding live dry by (simp add: LOGGER_info_def removing_msg_def)
qed

text \<open>
  The detector as the specification words it (\<^verbatim>\<open>FindOrphanTags\<close>, section 4.2), to state
  what ``a list with exactly one orphaned tag'' is: a derived-artifact tag is one whose
  name matches the pattern, and it is orphaned when the digest in its name is no
  \<^verbatim>\<open>manifest_digest\<close> of the list. A \<open>Tag\<close> of the data model has a string \<^verbatim>\<open>name\<close> and a
  string \<^verbatim>\<open>manifest_digest\<close>.
\<close>

definition derived_artifact_digest :: "pydict \<Rightarrow> string option" where
  "derived_artifact_digest t =
     (case t ''name'' of
        Some (JStr n) \<Rightarrow> map_option digest_of_match (re_match tag_regex n)
      | _ \<Rightarrow> None)"

definition is_orphan :: "jval list \<Rightarrow> pydict \<Rightarrow> bool" where
  "is_orphan digests t =
     (case derived_artifact_digest t of None \<Rightarrow> False | Some d \<Rightarrow> JStr d \<notin> set digests)"

definition FindOrphanTags :: "pydict list \<Rightarrow> pydict list" where
  "FindOrphanTags tags =
     filter (is_orphan (List.map_filter (\<lambda>t. t ''manifest_digest'') tags)) tags"

definition is_Tag :: "pydict \<Rightarrow> bool" where
  "is_Tag t =
     (case (t ''name'', t ''manifest_digest'') of
        (Some (JStr n), Some (JStr d)) \<Rightarrow> True
      | _ \<Rightarrow> False)"

lemma is_Tag_name: "is_Tag t \<Longrightarrow> \<exists>n. t ''name'' = Some (JStr n)"
  by (auto simp: is_Tag_def split: option.splits jval.splits)

lemma is_Tag_digest: "is_Tag t \<Longrightarrow> \<exists>d. t ''manifest_digest'' = Some d"
  by (auto simp: is_Tag_def split: option.splits jval.splits)

lemma image_digests_of_Tags:
  "\<forall>t \<in> set tags. is_Tag t \<Longrightarrow>
   image_digests_of tags = Inr (List.map_filter (\<lambda>t. t ''manifest_digest'') tags)"
proof (induction tags)
  case Nil
  show ?case by (simp add: List.map_filter_simps)
next
  case (Cons t tags)
  then obtain d where "t ''manifest_digest'' = Some d" using is_Tag_digest [of t] by auto
  with Cons show ?case by (simp add: List.map_filter_simps)
qed

lemma is_orphan_name:
  "t ''name'' = Some (JStr n) \<Longrightarrow> is_orphan ds t = orphan_name ds n"
  by (simp add: is_orphan_def orphan_name_def derived_artifact_digest_def split: option.splits)

lemma remove_tags_loop_no_orphan:
  assumes "\<forall>t \<in> set tags. is_Tag t" and "filter (is_orphan ds) tags = []"
  shows "remove_tags_loop ds tags tok ns nm dry w = Return () w"
  using assms
proof (induction tags)
  case Nil
  show ?case by simp
next
  case (Cons t tags)
  then obtain tn where tn: "t ''name'' = Some (JStr tn)" using is_Tag_name [of t] by auto
  from Cons.prems(2) have no: "\<not> orphan_name ds tn" and rest: "filter (is_orphan ds) tags = []"
    using is_orphan_name [of t, OF tn] by (auto split: if_splits)
  from Cons.IH Cons.prems(1) rest show ?case
    by (simp add: remove_tags_loop_Cons_keep [of t, OF tn no] del: remove_tags_loop.simps)
qed

lemma remove_tags_loop_one_orphan:
  assumes "\<forall>t \<in> set tags. is_Tag t" and "filter (is_orphan ds) tags = [orphan]"
    and "orphan ''name'' = Some (JStr n)"
  shows "remove_tags_loop ds tags tok ns nm True w =
           Return () (w\<lparr>logged := logged w @ [should_be_removed_msg n ns nm]\<rparr>)
       \<and> requests (final_world (remove_tags_loop ds tags tok ns nm False w)) =
           requests w @ [delete_request tok ns nm n]
       \<and> logged (final_world (remove_tags_loop ds tags tok ns nm False w)) =
           logged w @ [removing_msg n ns nm]"
  using assms(1,2)
proof (induction tags)
  case Nil
  then show ?case by simp
next
  case (Cons t tags)
  then obtain tn where tn: "t ''name'' = Some (JStr tn)" using is_Tag_name [of t] by auto
  from Cons.prems(1) have tags: "\<forall>t \<in> set tags. is_Tag t" by simp
  show ?case
  proof (cases "orphan_name ds tn")
    case False
    with Cons.prems(2) have "filter (is_orphan ds) tags = [orphan]"
      using is_orphan_name [of t, OF tn] by simp
    from Cons.IH [OF tags this] show ?thesis
      by (simp add: remove_tags_loop_Cons_keep [of t, OF tn False] del: remove_tags_loop.simps)
  next
    case True
    with Cons.prems(2) have "t = orphan" and none: "filter (is_orphan ds) tags = []"
      using is_orphan_name [of t, OF tn] by simp_all
    with tn assms(3) have n: "tn = n" by simp
    note rest = remove_tags_loop_no_orphan [OF tags none]
    let ?w1 = "LOGGER_info (removing_msg n ns nm) w"
    note d = delete_image_tag_final_world [of tok ns nm n ?w1]
    have dry: "remove_tags_loop ds (t # tags) tok ns nm True w =
           Return () (w\<lparr>logged := logged w @ [should_be_removed_msg n ns nm]\<rparr>)"
      by (simp add: remove_tags_loop_Cons_orphan [of t, OF tn True] rest n LOGGER_info_def
            del: remove_tags_loop.simps)
    have live: "final_world (remove_tags_loop ds (t # tags) tok ns nm False w) =
           final_world (delete_image_tag tok ns nm n ?w1)"
      by (simp add: remove_tags_loop_Cons_orphan [of t, OF tn True] rest n
            del: remove_tags_loop.simps split: outcome.splits)
    from dry d show ?thesis
      unfolding live by (simp add: LOGGER_info_def)
  qed
qed

definition three_tags :: "pydict list" where
  "three_tags =
     [[''name'' \<mapsto> JStr ''sha256-beef.sig'', ''manifest_digest'' \<mapsto> JStr ''sha256:01''],
      [''name'' \<mapsto> JStr ''v2'', ''manifest_digest'' \<mapsto> JStr ''sha256:cafe''],
      [''name'' \<mapsto> JStr ''sha256-cafe.sbom'', ''manifest_digest'' \<mapsto> JStr ''sha256:02'']]"

lemma three_tags_orphan:
  "FindOrphanTags three_tags = [three_tags ! 0]"
  by (simp add: FindOrphanTags_def three_tags_def is_orphan_def derived_artifact_digest_def
        List.map_filter_simps regex_eval)

text \<open>
  C5. For a list of tags with exactly one orphaned tag, of name \<open>n\<close>: a dry run returns
  having logged the one report for \<open>n\<close> and nothing else, so without any request; a real
  run, whatever the registry answers, logs the one removal message for \<open>n\<close> and sends the
  one \<^verbatim>\<open>DELETE\<close> request for \<open>n\<close>, and nothing else.
\<close>

theorem remove_tags_one_orphan:
  assumes "\<forall>t \<in> set tags. is_Tag t" and "FindOrphanTags tags = [orphan]"
    and "orphan ''name'' = Some (JStr n)"
  shows "remove_tags tags quay_token namespace name True w =
           Return () (w\<lparr>logged := logged w @ [should_be_removed_msg n namespace name]\<rparr>)
       \<and> requests (final_world (remove_tags tags quay_token namespace name False w)) =
           requests w @ [delete_request quay_token namespace name n]
       \<and> logged (final_world (remove_tags tags quay_token namespace name False w)) =
           logged w @ [removing_msg n namespace name]"
proof -
  let ?ds = "List.map_filter (\<lambda>t. t ''manifest_digest'') tags"
  have eq: "remove_tags tags quay_token namespace name dry w =
      remove_tags_loop ?ds tags quay_token namespace name dry w" for dry
    by (simp add: remove_tags_def image_digests_of_Tags [OF assms(1)])
  from assms(2) have "filter (is_orphan ?ds) tags = [orphan]"
    by (simp add: FindOrphanTags_def)
  from remove_tags_loop_one_orphan [OF assms(1) this assms(3)] show ?thesis
    unfolding eq .
qed

theorem remove_tags_one_orphan_witness:
  "FindOrphanTags three_tags = [three_tags ! 0]
   \<and> remove_tags three_tags ''tok'' ''acme'' ''app'' True
       \<lparr>replies = [], requests = [], logged = [], counter = 0\<rparr>
     = Return () \<lparr>replies = [], requests = [],
                  logged = [should_be_removed_msg ''sha256-beef.sig'' ''acme'' ''app''],
                  counter = 0\<rparr>
   \<and> requests (final_world (remove_tags three_tags ''tok'' ''acme'' ''app'' False
       \<lparr>replies = [Response server_error], requests = [], logged = [], counter = 0\<rparr>))
     = [delete_request ''tok'' ''acme'' ''app'' ''sha256-beef.sig'']
   \<and> logged (final_world (remove_tags three_tags ''tok'' ''acme'' ''app'' False
       \<lparr>replies = [Response server_error], requests = [], logged = [], counter = 0\<rparr>))
     = [removing_msg ''sha256-beef.sig'' ''acme'' ''app'']"
proof -
  have tags: "\<forall>t \<in> set three_tags. is_Tag t"
    by (simp add: three_tags_def is_Tag_def)
  have name: "(three_tags ! 0) ''name'' = Some (JStr ''sha256-beef.sig'')"
    by (simp add: three_tags_def)
  from remove_tags_one_orphan [OF tags three_tags_orphan name, of "''tok''" "''acme''" "''app''"
      "\<lparr>replies = [], requests = [], logged = [], counter = 0\<rparr>"]
    remove_tags_one_orphan [OF tags three_tags_orphan name, of "''tok''" "''acme''" "''app''"
      "\<lparr>replies = [Response server_error], requests = [], logged = [], counter = 0\<rparr>"]
    three_tags_orphan
  show ?thesis by simp
qed

subsection \<open>Errors end the run\<close>

lemma process_repositories_append:
  "process_repositories (xs @ ys) quay_token dry_run w =
     (case process_repositories xs quay_token dry_run w of
        Return u w' \<Rightarrow> process_repositories ys quay_token dry_run w'
      | Raise e w' \<Rightarrow> Raise e w'
      | Hang w' \<Rightarrow> Hang w')"
proof (induction xs arbitrary: w)
  case Nil
  show ?case by simp
next
  case (Cons repo xs)
  show ?case
    by (simp add: Cons.IH Let_def split: option.splits outcome.splits list.splits)
qed

lemma remove_tags_loop_append:
  "remove_tags_loop ds (xs @ ys) quay_token namespace name dry_run w =
     (case remove_tags_loop ds xs quay_token namespace name dry_run w of
        Return u w' \<Rightarrow> remove_tags_loop ds ys quay_token namespace name dry_run w'
      | Raise e w' \<Rightarrow> Raise e w'
      | Hang w' \<Rightarrow> Hang w')"
proof (induction xs arbitrary: w)
  case Nil
  show ?case by simp
next
  case (Cons tag xs)
  show ?case
  proof (cases "tag ''name''")
    case None
    then show ?thesis by simp
  next
    case (Some v)
    show ?thesis
    proof (cases v)
      case (JStr tn)
      with Some have tn: "tag ''name'' = Some (JStr tn)" by simp
      show ?thesis
      proof (cases "orphan_name ds tn")
        case False
        show ?thesis
          using Cons.IH
          by (simp add: remove_tags_loop_Cons_keep [of tag, OF tn False]
                del: remove_tags_loop.simps)
      next
        case True
        note unfold = remove_tags_loop_Cons_orphan [of tag, OF tn True]
        show ?thesis
        proof (cases dry_run)
          case True
          then have dry: "dry_run = True" by simp
          from Cons.IH show ?thesis
            unfolding dry by (simp add: unfold del: remove_tags_loop.simps)
        next
          case False
          then have live: "dry_run = False" by simp
          from Cons.IH show ?thesis
            unfolding live
            by (cases "delete_image_tag quay_token namespace name tn
                  (LOGGER_info (removing_msg tn namespace name) w)")
               (simp_all add: unfold del: remove_tags_loop.simps)
        qed
      qed
    qed (use Some in simp_all)
  qed
qed

lemma remove_tags_Raise_delete:
  assumes "image_digests_of tags = Inr ds"
    and "tags = earlier_tags @ tag # later"
    and "remove_tags_loop ds earlier_tags quay_token namespace name False w = Return () w_mid"
    and "tag ''name'' = Some (JStr tn)" and "orphan_name ds tn"
    and "delete_image_tag quay_token namespace name tn
           (LOGGER_info (removing_msg tn namespace name) w_mid) = Raise e w'"
  shows "remove_tags tags quay_token namespace name False w = Raise e w'"
proof -
  have "remove_tags tags quay_token namespace name False w =
        remove_tags_loop ds tags quay_token namespace name False w"
    by (simp add: remove_tags_def assms(1))
  also have "\<dots> = remove_tags_loop ds (tag # later) quay_token namespace name False w_mid"
    unfolding assms(2) by (simp add: remove_tags_loop_append assms(3) del: remove_tags_loop.simps)
  also have "\<dots> = Raise e w'"
    by (simp add: remove_tags_loop_Cons_orphan [of tag, OF assms(4,5)] assms(6)
          del: remove_tags_loop.simps)
  finally show ?thesis .
qed

text \<open>
  C6. No error is caught on the way up. An error of \<^verbatim>\<open>delete_image_tag\<close> at an orphaned
  tag, after the tags before it went well, is the outcome of \<^verbatim>\<open>remove_tags\<close>; an error
  of \<^verbatim>\<open>get_quay_tags\<close> or of \<^verbatim>\<open>remove_tags\<close> for a repository is the outcome of
  \<^verbatim>\<open>process_repositories\<close>, whatever repositories follow and after whatever
  repositories went well; an error of \<^verbatim>\<open>process_repositories\<close> on a batch is the
  outcome of the loop of \<^verbatim>\<open>main\<close> and of \<^verbatim>\<open>main\<close>. Each time the world is the one in
  which the error was raised: nothing was logged or requested after it, so no later
  repository was processed.
\<close>

theorem api_error_is_fatal:
  "(image_digests_of tags = Inr ds \<and> tags = earlier_tags @ tag # later
      \<and> remove_tags_loop ds earlier_tags quay_token namespace name False w = Return () w_mid
      \<and> tag ''name'' = Some (JStr tn) \<and> orphan_name ds tn
      \<and> delete_image_tag quay_token namespace name tn
           (LOGGER_info (removing_msg tn namespace name) w_mid) = Raise e w'
    \<longrightarrow> remove_tags tags quay_token namespace name False w = Raise e w')
 \<and> (repo ''namespace'' = Some namespace_v \<and> repo ''name'' = Some name_v
      \<and> get_quay_tags quay_token (py_str namespace_v) (py_str name_v)
           (LOGGER_info (processing_msg (counter w) (py_str namespace_v) (py_str name_v))
              (w\<lparr>counter := Suc (counter w)\<rparr>)) = Raise e w'
    \<longrightarrow> process_repositories (repo # repos) quay_token dry_run w = Raise e w')
 \<and> (repo ''namespace'' = Some namespace_v \<and> repo ''name'' = Some name_v
      \<and> get_quay_tags quay_token (py_str namespace_v) (py_str name_v)
           (LOGGER_info (processing_msg (counter w) (py_str namespace_v) (py_str name_v))
              (w\<lparr>counter := Suc (counter w)\<rparr>)) = Return (t # ts) w_tags
      \<and> remove_tags (t # ts) quay_token (py_str namespace_v) (py_str name_v) dry_run w_tags = Raise e w'
    \<longrightarrow> process_repositories (repo # repos) quay_token dry_run w = Raise e w')
 \<and> (process_repositories earlier quay_token dry_run w = Return () w_mid
      \<and> process_repositories [repo] quay_token dry_run w_mid = Raise e w'
    \<longrightarrow> process_repositories (earlier @ repo # repos) quay_token dry_run w = Raise e w')
 \<and> (fetch_image_repos_next quay_token (args_namespace args) g w = Return (Some batch, g') w_mid
      \<and> process_repositories batch quay_token (args_dry_run args) w_mid = Raise e w'
    \<longrightarrow> main_for quay_token args g w = Raise e w')
 \<and> (environ ''QUAY_TOKEN'' = Some quay_token \<and> quay_token \<noteq> []
      \<and> main_for quay_token args GenStart w = Raise e w'
    \<longrightarrow> main environ (Inr args) w = Raise e w')"
proof (intro conjI impI)
  show "process_repositories (earlier @ repo # repos) quay_token dry_run w = Raise e w'"
    if "process_repositories earlier quay_token dry_run w = Return () w_mid
      \<and> process_repositories [repo] quay_token dry_run w_mid = Raise e w'"
    using that process_repositories_append [of "[repo]" repos quay_token dry_run w_mid]
    by (simp add: process_repositories_append [of earlier] del: process_repositories.simps)
  show "main_for quay_token args g w = Raise e w'"
    if "fetch_image_repos_next quay_token (args_namespace args) g w = Return (Some batch, g') w_mid
      \<and> process_repositories batch quay_token (args_dry_run args) w_mid = Raise e w'"
    using that by (subst main_for.simps) simp
  show "main environ (Inr args) w = Raise e w'"
    if "environ ''QUAY_TOKEN'' = Some quay_token \<and> quay_token \<noteq> []
      \<and> main_for quay_token args GenStart w = Raise e w'"
    using that by (simp add: main_def)
  show "remove_tags tags quay_token namespace name False w = Raise e w'"
    if "image_digests_of tags = Inr ds \<and> tags = earlier_tags @ tag # later
      \<and> remove_tags_loop ds earlier_tags quay_token namespace name False w = Return () w_mid
      \<and> tag ''name'' = Some (JStr tn) \<and> orphan_name ds tn
      \<and> delete_image_tag quay_token namespace name tn
           (LOGGER_info (removing_msg tn namespace name) w_mid) = Raise e w'"
    using that
      remove_tags_Raise_delete [of tags ds earlier_tags tag later quay_token namespace name w
        w_mid tn e w']
    by blast
qed (simp_all add: Let_def)

theorem api_error_is_fatal_witness:
  "main [''QUAY_TOKEN'' \<mapsto> ''tok''] (Inr example_args)
     \<lparr>replies = [Response (repos_page [example_repo ''lib'', example_repo ''app'',
                                        example_repo ''other''] None),
                 Response (tags_page [] None None),
                 Response (tags_page example_tags (Some 1) (Some False)),
                 Response server_error],
      requests = [], logged = [], counter = 0\<rparr>
   = Raise (HTTPError 500 ''Internal Server Error'')
     \<lparr>replies = [],
      requests = [repos_request ''tok'' ''acme'' None,
                  tags_request ''tok'' ''acme'' ''lib'' None,
                  tags_request ''tok'' ''acme'' ''app'' None,
                  delete_request ''tok'' ''acme'' ''app'' ''sha256-ccc.att''],
      logged = [processing_msg 0 ''acme'' ''lib'', processing_msg 1 ''acme'' ''app'',
                removing_msg ''sha256-ccc.att'' ''acme'' ''app''],
      counter = 2\<rparr>
   \<and> process_repositories [example_repo ''app'', example_repo ''other''] ''tok'' False
     \<lparr>replies = [Response server_error], requests = [], logged = [], counter = 0\<rparr>
   = Raise (HTTPError 500 ''Internal Server Error'')
     \<lparr>replies = [], requests = [tags_request ''tok'' ''acme'' ''app'' None],
      logged = [processing_msg 0 ''acme'' ''app''], counter = 1\<rparr>"
proof -
  let ?e = "HTTPError 500 ''Internal Server Error''"
  let ?ds = "[JStr ''sha256:aaa'', JStr ''sha256:bbb'', JStr ''sha256:ddd'']"
  let ?q0 = "repos_request ''tok'' ''acme'' None"
  let ?q1 = "tags_request ''tok'' ''acme'' ''lib'' None"
  let ?q2 = "tags_request ''tok'' ''acme'' ''app'' None"
  let ?q3 = "delete_request ''tok'' ''acme'' ''app'' ''sha256-ccc.att''"
  let ?l1 = "processing_msg 0 ''acme'' ''lib''"
  let ?l2 = "processing_msg 1 ''acme'' ''app''"
  let ?l3 = "removing_msg ''sha256-ccc.att'' ''acme'' ''app''"
  let ?batch = "[example_repo ''lib'', example_repo ''app'', example_repo ''other'']"
  let ?r1 = "Response (tags_page [] None None)"
  let ?r2 = "Response (tags_page example_tags (Some 1) (Some False))"
  let ?r3 = "Response server_error"
  let ?w0 = "\<lparr>replies = [Response (repos_page ?batch None), ?r1, ?r2, ?r3],
             requests = [], logged = [], counter = 0\<rparr>"
  let ?w1 = "\<lparr>replies = [?r1, ?r2, ?r3], requests = [?q0], logged = [], counter = 0\<rparr>"
  let ?w2 = "\<lparr>replies = [?r2, ?r3], requests = [?q0, ?q1], logged = [?l1], counter = 1\<rparr>"
  let ?w3 = "\<lparr>replies = [?r3], requests = [?q0, ?q1, ?q2], logged = [?l1, ?l2], counter = 2\<rparr>"
  let ?w4 = "\<lparr>replies = [], requests = [?q0, ?q1, ?q2, ?q3], logged = [?l1, ?l2, ?l3],
             counter = 2\<rparr>"
  note fatal = api_error_is_fatal
  have fetch: "fetch_image_repos_next ''tok'' (args_namespace example_args) GenStart ?w0 =
      Return (Some ?batch, GenSuspended (body (repos_page ?batch None))) ?w1"
    by (simp add: fetch_image_repos_next_def fetch_image_repos_pass_def urlopen_def Let_def
          repos_page_def example_args_def)
  have lib: "process_repositories [example_repo ''lib''] ''tok'' False ?w1 = Return () ?w2"
    by (simp add: example_repo_def get_quay_tags_def get_quay_tags_loop_200 [where evs = "[?r2, ?r3]"]
          tags_page_def LOGGER_info_def Let_def)
  have tags: "get_quay_tags ''tok'' (py_str (JStr ''acme'')) (py_str (JStr ''app''))
        (LOGGER_info (processing_msg (counter ?w2) (py_str (JStr ''acme'')) (py_str (JStr ''app'')))
           (?w2\<lparr>counter := Suc (counter ?w2)\<rparr>)) = Return example_tags ?w3"
    by (simp add: get_quay_tags_def get_quay_tags_loop_200 [where evs = "[?r3]"]
          tags_page_def LOGGER_info_def Let_def example_tags_def)
  have delete: "delete_image_tag ''tok'' ''acme'' ''app'' ''sha256-ccc.att''
        (LOGGER_info (removing_msg ''sha256-ccc.att'' ''acme'' ''app'') ?w3) = Raise ?e ?w4"
    by (simp add: delete_image_tag_def urlopen_def Let_def server_error_def LOGGER_info_def)
  have remove: "remove_tags example_tags ''tok'' ''acme'' ''app'' False ?w3 = Raise ?e ?w4"
    using delete
      fatal [where tags = example_tags and ds = ?ds and earlier_tags = "take 2 example_tags"
        and tag = "example_tags ! 2" and later = "[]" and tn = "''sha256-ccc.att''"
        and quay_token = "''tok''" and namespace = "''acme''" and name = "''app''"
        and w = ?w3 and w_mid = ?w3 and e = ?e and w' = ?w4, THEN conjunct1]
    by (simp add: example_tags_def example_orphans regex_eval)
  have app: "process_repositories [example_repo ''app''] ''tok'' False ?w2 = Raise ?e ?w4"
    using tags remove
      fatal [where repo = "example_repo ''app''" and namespace_v = "JStr ''acme''"
        and name_v = "JStr ''app''" and quay_token = "''tok''" and w = ?w2 and e = ?e
        and w' = ?w4 and t = "hd example_tags" and ts = "tl example_tags" and w_tags = ?w3
        and repos = "[]" and dry_run = False,
        THEN conjunct2, THEN conjunct2, THEN conjunct1]
    by (simp add: example_repo_def example_tags_def)
  have batch: "process_repositories ?batch ''tok'' (args_dry_run example_args) ?w1 = Raise ?e ?w4"
    using lib app
      fatal [where earlier = "[example_repo ''lib'']" and repo = "example_repo ''app''"
        and repos = "[example_repo ''other'']" and quay_token = "''tok''" and dry_run = False
        and w = ?w1 and w_mid = ?w2 and e = ?e and w' = ?w4,
        THEN conjunct2, THEN conjunct2, THEN conjunct2, THEN conjunct1]
    by (simp add: example_args_def)
  have loop: "main_for ''tok'' example_args GenStart ?w0 = Raise ?e ?w4"
    using fetch batch
      fatal [where quay_token = "''tok''" and args = example_args and g = GenStart and w = ?w0
        and batch = ?batch and w_mid = ?w1 and e = ?e and w' = ?w4,
        THEN conjunct2, THEN conjunct2, THEN conjunct2, THEN conjunct2, THEN conjunct1]
    by blast
  have run: "main [''QUAY_TOKEN'' \<mapsto> ''tok''] (Inr example_args) ?w0 = Raise ?e ?w4"
    using loop
      fatal [where environ = "[''QUAY_TOKEN'' \<mapsto> ''tok'']" and quay_token = "''tok''"
        and args = example_args and w = ?w0 and e = ?e and w' = ?w4,
        THEN conjunct2, THEN conjunct2, THEN conjunct2, THEN conjunct2, THEN conjunct2]
    by simp
  let ?v0 = "\<lparr>replies = [?r3], requests = [], logged = [], counter = 0\<rparr>"
  let ?v1 = "\<lparr>replies = [], requests = [?q2], logged = [processing_msg 0 ''acme'' ''app''],
             counter = 1\<rparr>"
  have listing: "get_quay_tags ''tok'' (py_str (JStr ''acme'')) (py_str (JStr ''app''))
        (LOGGER_info (processing_msg (counter ?v0) (py_str (JStr ''acme'')) (py_str (JStr ''app'')))
           (?v0\<lparr>counter := Suc (counter ?v0)\<rparr>)) = Raise ?e ?v1"
    by (simp add: get_quay_tags_def get_quay_tags_loop.simps urlopen_def Let_def server_error_def
          LOGGER_info_def)
  have listing_fatal: "process_repositories [example_repo ''app'', example_repo ''other''] ''tok''
        False ?v0 = Raise ?e ?v1"
    using listing
      fatal [where repo = "example_repo ''app''" and namespace_v = "JStr ''acme''"
        and name_v = "JStr ''app''" and quay_token = "''tok''" and w = ?v0 and e = ?e
        and w' = ?v1 and repos = "[example_repo ''other'']" and dry_run = False,
        THEN conjunct2, THEN conjunct1]
    by (simp add: example_repo_def)
  from run listing_fatal show ?thesis by simp
qed

end
